theory Spec2Isabelle
  imports Main "HOL-Library.Monad_Syntax"
begin

section \<open>Semiprime generation for GNFS test inputs: the program\<close>

text \<open>
  The development embeds \<^verbatim>\<open>generate_test_numbers.py\<close>. Python integers are
  unbounded, so every number is an \<open>int\<close>; \<open>%\<close> and \<open>//\<close> are floor division,
  as \<open>mod\<close> and \<open>div\<close> on \<open>int\<close> are. A call of a function of the script has one of
  three outcomes: it returns a value (\<open>Some (Inr v)\<close>), it raises an exception
  (\<open>Some (Inl e)\<close>), or it never returns (\<open>None\<close>). A function without a loop that can
  run forever has the first two outcomes only, and a plain sum as its result.
\<close>

datatype error = TypeError | OverflowError

subsection \<open>Library behaviour the script relies on\<close>

text \<open>
  The integer floor of the square root, by the digit-by-digit recurrence.
\<close>

function floor_sqrt :: "int \<Rightarrow> int" where
  "floor_sqrt n =
     (if n < 1 then 0
      else (let r = 2 * floor_sqrt (n div 4)
            in if (r + 1) * (r + 1) \<le> n then r + 1 else r))"
  by pat_completeness auto
termination
  by (relation "measure nat") auto

text \<open>
  \<^verbatim>\<open>int(n ** 0.5)\<close> is a computation on doubles. The integer is converted to a double
  first, rounding to nearest: from \<open>2^1024 - 2^970\<close> on (in absolute value) the conversion
  raises \<^verbatim>\<open>OverflowError\<close>. The power of a negative double is a complex number, of
  which \<^verbatim>\<open>int\<close> raises \<^verbatim>\<open>TypeError\<close>. Below \<open>2^52\<close> the integer is a double, the
  computed root is off by less than one unit in the last place, and its truncation is the
  integer floor of the square root. From \<open>2^52\<close> up to the overflow the result depends on
  the rounding of the conversion and of the platform's power function; it is the parameter
  \<open>double_root\<close> of every function that reaches it, and nothing is assumed of it.
\<close>

definition exact_limit :: int where
  "exact_limit = 2 ^ 52"

definition float_limit :: int where
  "float_limit = 2 ^ 1024 - 2 ^ 970"

definition int_root :: "(int \<Rightarrow> int) \<Rightarrow> int \<Rightarrow> error + int" where
  "int_root double_root n =
     (if n \<le> - float_limit \<or> float_limit \<le> n then Inl OverflowError
      else if n < 0 then Inl TypeError
      else if n < exact_limit then Inr (floor_sqrt n)
      else Inr (double_root n))"

text \<open>\<^verbatim>\<open>str(n)\<close> of an integer: decimal digits, with a leading minus sign.\<close>

function str_digits :: "int \<Rightarrow> string" where
  "str_digits n =
     (if n < 10 then [char_of (48 + n)]
      else str_digits (n div 10) @ [char_of (48 + n mod 10)])"
  by pat_completeness auto
termination
  by (relation "measure nat") auto

definition str_int :: "int \<Rightarrow> string" where
  "str_int i = (if i < 0 then CHR ''-'' # str_digits (- i) else str_digits i)"

subsection \<open>Primality oracle and directional prime search\<close>

text \<open>The \<^verbatim>\<open>for i in range(3, stop, 2)\<close> loop of \<^verbatim>\<open>is_prime\<close>.\<close>

function is_prime_loop :: "int \<Rightarrow> int \<Rightarrow> int \<Rightarrow> bool" where
  "is_prime_loop n i stop =
     (if i < stop
      then (if n mod i = 0 then False else is_prime_loop n (i + 2) stop)
      else True)"
  by pat_completeness auto
termination
  by (relation "measure (\<lambda>(n, i, stop). nat (stop - i))") auto

definition is_prime :: "(int \<Rightarrow> int) \<Rightarrow> int \<Rightarrow> error + bool" where
  "is_prime double_root n =
     (if n < 2 then Inr False
      else if n = 2 then Inr True
      else if n mod 2 = 0 then Inr False
      else (case int_root double_root n of
              Inl e \<Rightarrow> Inl e
            | Inr r \<Rightarrow> Inr (is_prime_loop n 3 (r + 1))))"

partial_function (option) next_prime_loop :: "(int \<Rightarrow> int) \<Rightarrow> int \<Rightarrow> (error + int) option" where
  "next_prime_loop double_root candidate =
     (case is_prime double_root candidate of
        Inl e \<Rightarrow> Some (Inl e)
      | Inr prime \<Rightarrow>
          if \<not> prime then next_prime_loop double_root (candidate + 2)
          else Some (Inr candidate))"

definition next_prime :: "(int \<Rightarrow> int) \<Rightarrow> int \<Rightarrow> (error + int) option" where
  "next_prime double_root n =
     next_prime_loop double_root (if n mod 2 = 0 then n + 1 else n + 2)"

text \<open>
  In \<^verbatim>\<open>while candidate > 2 and not is_prime(candidate)\<close> the oracle is called only for
  a candidate above 2.
\<close>

partial_function (option) prev_prime_loop :: "(int \<Rightarrow> int) \<Rightarrow> int \<Rightarrow> (error + int) option" where
  "prev_prime_loop double_root candidate =
     (if candidate > 2
      then (case is_prime double_root candidate of
              Inl e \<Rightarrow> Some (Inl e)
            | Inr prime \<Rightarrow>
                if \<not> prime then prev_prime_loop double_root (candidate - 2)
                else Some (Inr candidate))
      else Some (Inr candidate))"

definition prev_prime :: "(int \<Rightarrow> int) \<Rightarrow> int \<Rightarrow> (error + int) option" where
  "prev_prime double_root n =
     prev_prime_loop double_root (if n mod 2 = 0 then n - 1 else n - 2)"

subsection \<open>Target-digit constructor\<close>

text \<open>
  The two adjustment loops of \<^verbatim>\<open>generate_semiprime\<close> run on the local variables
  \<open>p\<close>, \<open>q\<close> and \<open>product\<close>; each returns the three as the loop leaves them.
  \<open>target_digits\<close> is a natural number: with a negative exponent \<^verbatim>\<open>10 ** target_digits\<close>
  is a double, outside this embedding.
\<close>

type_synonym triple = "int \<times> int \<times> int"

partial_function (option) shrink_loop ::
  "(int \<Rightarrow> int) \<Rightarrow> nat \<Rightarrow> int \<Rightarrow> int \<Rightarrow> int \<Rightarrow> (error + triple) option" where
  "shrink_loop double_root target_digits p q product =
     (if length (str_int product) > target_digits
      then do {
        r \<leftarrow> prev_prime double_root q;
        case r of
          Inl e \<Rightarrow> Some (Inl e)
        | Inr q' \<Rightarrow> shrink_loop double_root target_digits p q' (p * q')
      }
      else Some (Inr (p, q, product)))"

partial_function (option) grow_loop ::
  "(int \<Rightarrow> int) \<Rightarrow> nat \<Rightarrow> int \<Rightarrow> int \<Rightarrow> int \<Rightarrow> (error + triple) option" where
  "grow_loop double_root target_digits p q product =
     (if length (str_int product) < target_digits
      then do {
        r \<leftarrow> next_prime double_root q;
        case r of
          Inl e \<Rightarrow> Some (Inl e)
        | Inr q' \<Rightarrow> grow_loop double_root target_digits p q' (p * q')
      }
      else Some (Inr (p, q, product)))"

definition generate_semiprime :: "(int \<Rightarrow> int) \<Rightarrow> nat \<Rightarrow> (error + triple) option" where
  "generate_semiprime double_root target_digits =
     (let target = 10 ^ target_digits;
          half_digits = target_digits div 2
      in do {
        rp \<leftarrow> next_prime double_root (10 ^ half_digits);
        case rp of
          Inl e \<Rightarrow> Some (Inl e)
        | Inr p \<Rightarrow> do {
            rq \<leftarrow> next_prime double_root (target div p);
            case rq of
              Inl e \<Rightarrow> Some (Inl e)
            | Inr q \<Rightarrow> do {
                rs \<leftarrow> shrink_loop double_root target_digits p q (p * q);
                case rs of
                  Inl e \<Rightarrow> Some (Inl e)
                | Inr (p, q, product) \<Rightarrow> grow_loop double_root target_digits p q product
              }
          }
      })"

subsection \<open>Range enumerator\<close>

text \<open>
  The inner \<^verbatim>\<open>while product <= max_val\<close> loop, for one \<open>p\<close>; the \<^verbatim>\<open>break\<close>
  leaves it with the list just extended.
\<close>

partial_function (option) inner_loop ::
  "(int \<Rightarrow> int) \<Rightarrow> int \<Rightarrow> int \<Rightarrow> int \<Rightarrow> int \<Rightarrow> int \<Rightarrow> int \<Rightarrow> triple list
     \<Rightarrow> (error + triple list) option" where
  "inner_loop double_root min_val max_val count p q product results =
     (if product \<le> max_val
      then
        (if min_val \<le> product \<and> product \<le> max_val
            \<and> length (str_int product) = length (str_int min_val)
         then
           (if int (length (results @ [(p, q, product)])) \<ge> count
            then Some (Inr (results @ [(p, q, product)]))
            else do {
              r \<leftarrow> next_prime double_root q;
              case r of
                Inl e \<Rightarrow> Some (Inl e)
              | Inr q' \<Rightarrow>
                  inner_loop double_root min_val max_val count p q' (p * q')
                    (results @ [(p, q, product)])
            })
         else do {
           r \<leftarrow> next_prime double_root q;
           case r of
             Inl e \<Rightarrow> Some (Inl e)
           | Inr q' \<Rightarrow> inner_loop double_root min_val max_val count p q' (p * q') results
         })
      else Some (Inr results))"

text \<open>
  One pass of the outer \<^verbatim>\<open>while\<close> loop: the first \<open>q\<close> for this \<open>p\<close>, the inner
  loop, and the step to the next \<open>p\<close>. It returns the two variables the loop carries.
\<close>

definition outer_body ::
  "(int \<Rightarrow> int) \<Rightarrow> int \<Rightarrow> int \<Rightarrow> int \<Rightarrow> triple list \<times> int
     \<Rightarrow> (error + triple list \<times> int) option" where
  "outer_body double_root min_val max_val count s =
     (case s of (results, p) \<Rightarrow> do {
        rq \<leftarrow> next_prime double_root (min_val div p);
        case rq of
          Inl e \<Rightarrow> Some (Inl e)
        | Inr q \<Rightarrow> do {
            ri \<leftarrow> inner_loop double_root min_val max_val count p q (p * q) results;
            case ri of
              Inl e \<Rightarrow> Some (Inl e)
            | Inr results' \<Rightarrow> do {
                rp \<leftarrow> next_prime double_root p;
                case rp of
                  Inl e \<Rightarrow> Some (Inl e)
                | Inr p' \<Rightarrow> Some (Inr (results', p'))
              }
          }
      })"

partial_function (option) outer_loop ::
  "(int \<Rightarrow> int) \<Rightarrow> int \<Rightarrow> int \<Rightarrow> int \<Rightarrow> triple list \<Rightarrow> int
     \<Rightarrow> (error + triple list) option" where
  "outer_loop double_root min_val max_val count results p =
     (if int (length results) < count \<and> p * p < max_val
      then do {
        r \<leftarrow> outer_body double_root min_val max_val count (results, p);
        case r of
          Inl e \<Rightarrow> Some (Inl e)
        | Inr s \<Rightarrow> outer_loop double_root min_val max_val count (fst s) (snd s)
      }
      else Some (Inr results))"

definition find_semiprimes_in_range ::
  "(int \<Rightarrow> int) \<Rightarrow> int \<Rightarrow> int \<Rightarrow> int \<Rightarrow> (error + triple list) option" where
  "find_semiprimes_in_range double_root min_val max_val count =
     (case int_root double_root min_val of
        Inl e \<Rightarrow> Some (Inl e)
      | Inr root \<Rightarrow> do {
          rp \<leftarrow> next_prime double_root root;
          case rp of
            Inl e \<Rightarrow> Some (Inl e)
          | Inr p \<Rightarrow> outer_loop double_root min_val max_val count [] p
        })"

subsection \<open>The curated report\<close>

text \<open>
  The report is the list of the lines the script prints. The multiplication sign of the
  entry lines is outside ASCII; it is kept as its two UTF-8 bytes. The dictionary
  \<^verbatim>\<open>test_numbers\<close> is an association list with distinct keys, visited in
  ascending key order.
\<close>

definition times_sign :: string where
  "times_sign = [char_of (195 :: nat), char_of (151 :: nat)]"

definition product_line :: "int \<Rightarrow> triple \<Rightarrow> string" where
  "product_line digits e =
     (case e of (p, q, n) \<Rightarrow>
        ''  '' @ str_int n @ '' = '' @ str_int p @ '' '' @ times_sign @ '' '' @ str_int q
          @ (if digits = 8 then '' (BASELINE)'' else ''''))"

definition factor_error_line :: "triple \<Rightarrow> string" where
  "factor_error_line e =
     (case e of (p, q, n) \<Rightarrow>
        ''  ERROR: '' @ str_int p @ '' '' @ times_sign @ '' '' @ str_int q @ '' = ''
          @ str_int (p * q) @ '', not '' @ str_int n)"

definition digits_error_line :: "int \<Rightarrow> triple \<Rightarrow> string" where
  "digits_error_line digits e =
     (case e of (p, q, n) \<Rightarrow>
        ''  ERROR: '' @ str_int n @ '' has '' @ str_int (int (length (str_int n)))
          @ '' digits, not '' @ str_int digits)"

definition entry_line :: "int \<Rightarrow> triple \<Rightarrow> string" where
  "entry_line digits e =
     (case e of (p, q, n) \<Rightarrow>
        if p * q \<noteq> n then factor_error_line e
        else if int (length (str_int n)) \<noteq> digits then digits_error_line digits e
        else product_line digits e)"

definition report_group :: "int \<Rightarrow> triple list \<Rightarrow> string list" where
  "report_group digits entries =
     (str_int digits @ '' DIGITS:'') # map (entry_line digits) entries @ ['''']"

definition report_table :: "(int \<times> triple list) list \<Rightarrow> string list" where
  "report_table tbl = concat (map (\<lambda>(digits, entries). report_group digits entries) (sort_key fst tbl))"

definition report :: "(int \<times> triple list) list \<Rightarrow> string list" where
  "report tbl =
     [replicate 70 CHR ''='', ''GNFS TEST NUMBERS - SEMIPRIMES'', replicate 70 CHR ''='', '''']
     @ report_table tbl
     @ [replicate 70 CHR ''='', '''', ''USAGE:'', ''  ./target/release/gnfs <number>'',
        ''  Example: ./target/release/gnfs 47893197'', '''']"

definition test_numbers :: "(int \<times> triple list) list" where
  "test_numbers =
     [(8, [(6917, 6923, 47893197)]),
      (9, [(10007, 31469, 314920583), (14143, 23971, 339023653), (18713, 19681, 368237353)]),
      (10, [(31627, 31657, 1001163139), (100003, 99991, 9999399973),
            (158233, 189389, 29968661137)]),
      (11, [(316513, 316549, 100179924437), (500009, 630007, 315008630063),
            (707089, 811447, 573881819183)]),
      (12, [(1000003, 999983, 999985999949), (2236067, 1483637, 3317738819279)])]"

subsection \<open>Specification vocabulary\<close>

text \<open>A prime, by trial division with every integer below it.\<close>

definition prime_int :: "int \<Rightarrow> bool" where
  "prime_int p \<longleftrightarrow> 1 < p \<and> (\<forall>d \<in> {2..<p}. \<not> d dvd p)"

text \<open>The order in which the enumerator appends: by \<open>p\<close>, then by \<open>q\<close>, both strictly.\<close>

definition appended_before :: "triple \<Rightarrow> triple \<Rightarrow> bool" where
  "appended_before a b \<longleftrightarrow> fst a < fst b \<or> (fst a = fst b \<and> fst (snd a) < fst (snd b))"

text \<open>What the enumerator promises of every triple it returns.\<close>

definition in_range_entry :: "int \<Rightarrow> int \<Rightarrow> triple \<Rightarrow> bool" where
  "in_range_entry min_val max_val t \<longleftrightarrow>
     (case t of (p, q, product) \<Rightarrow>
        p * q = product \<and> min_val \<le> product \<and> product \<le> max_val
        \<and> length (str_int product) = length (str_int min_val))"

text \<open>
  What it means for a \<^verbatim>\<open>while\<close> loop with guard \<open>cond\<close> and body \<open>body\<close> to run from
  state \<open>s\<close> and leave with state \<open>t\<close>: the body is run, and returns, exactly as long as the
  guard holds.
\<close>

inductive while_run ::
  "('s \<Rightarrow> bool) \<Rightarrow> ('s \<Rightarrow> ('e + 's) option) \<Rightarrow> 's \<Rightarrow> 's \<Rightarrow> bool"
  for cond :: "'s \<Rightarrow> bool" and body :: "'s \<Rightarrow> ('e + 's) option" where
  leave: "\<not> cond s \<Longrightarrow> while_run cond body s s"
| pass: "cond s \<Longrightarrow> body s = Some (Inr s') \<Longrightarrow> while_run cond body s' t
     \<Longrightarrow> while_run cond body s t"

section \<open>Verification\<close>

declare floor_sqrt.simps [simp del] is_prime_loop.simps [simp del] str_digits.simps [simp del]

declare next_prime_loop.simps [code] prev_prime_loop.simps [code]
  shrink_loop.simps [code] grow_loop.simps [code]
  inner_loop.simps [code] outer_loop.simps [code]

subsection \<open>The integer square root\<close>

lemma floor_sqrt_bounds:
  "0 \<le> n \<Longrightarrow> 0 \<le> floor_sqrt n \<and> floor_sqrt n * floor_sqrt n \<le> n
     \<and> n < (floor_sqrt n + 1) * (floor_sqrt n + 1)"
proof (induction n rule: floor_sqrt.induct)
  case (1 n)
  show ?case
  proof (cases "n < 1")
    case True
    with "1.prems" have "n = 0" by simp
    then show ?thesis by (simp add: floor_sqrt.simps)
  next
    case False
    define s where "s = floor_sqrt (n div 4)"
    have nd: "0 \<le> n div 4" using "1.prems" by simp
    from "1.IH" [OF False nd] have s0: "0 \<le> s" and s1: "s * s \<le> n div 4"
      and s2: "n div 4 < (s + 1) * (s + 1)"
      by (simp_all add: s_def)
    have lo: "(2 * s) * (2 * s) \<le> n"
    proof -
      have "4 * (s * s) \<le> 4 * (n div 4)" using s1 by simp
      also have "\<dots> \<le> n" by presburger
      finally show ?thesis by (simp add: algebra_simps)
    qed
    have hi: "n < (2 * s + 2) * (2 * s + 2)"
    proof -
      have "n div 4 + 1 \<le> (s + 1) * (s + 1)" using s2 by simp
      then have "4 * (n div 4) + 4 \<le> 4 * ((s + 1) * (s + 1))" by simp
      moreover have "n < 4 * (n div 4) + 4" by presburger
      ultimately have "n < 4 * ((s + 1) * (s + 1))" by linarith
      then show ?thesis by (simp add: algebra_simps)
    qed
    have eq: "floor_sqrt n = (if (2 * s + 1) * (2 * s + 1) \<le> n then 2 * s + 1 else 2 * s)"
      using False by (subst floor_sqrt.simps) (simp add: s_def Let_def)
    show ?thesis
    proof (cases "(2 * s + 1) * (2 * s + 1) \<le> n")
      case True
      then show ?thesis using eq s0 hi by (simp add: algebra_simps)
    next
      case False
      then show ?thesis using eq s0 lo by (simp add: algebra_simps)
    qed
  qed
qed

lemma floor_sqrt_unique:
  assumes "0 \<le> r" "r * r \<le> n" "n < (r + 1) * (r + 1)"
  shows "floor_sqrt n = r"
proof -
  have n0: "0 \<le> n" using assms(1,2) by (meson mult_nonneg_nonneg order_trans)
  let ?s = "floor_sqrt n"
  from floor_sqrt_bounds [OF n0] have s: "0 \<le> ?s" "?s * ?s \<le> n" "n < (?s + 1) * (?s + 1)"
    by simp_all
  have "\<not> ?s < r"
  proof
    assume "?s < r"
    then have "?s + 1 \<le> r" by simp
    then have "(?s + 1) * (?s + 1) \<le> r * r" using s(1) by (intro mult_mono) simp_all
    with s(3) assms(2) show False by linarith
  qed
  moreover have "\<not> r < ?s"
  proof
    assume "r < ?s"
    then have "r + 1 \<le> ?s" by simp
    then have "(r + 1) * (r + 1) \<le> ?s * ?s" using assms(1) by (intro mult_mono) simp_all
    with s(2) assms(3) show False by linarith
  qed
  ultimately show ?thesis by linarith
qed

lemma le_floor_sqrt_iff:
  assumes "0 \<le> n" "0 \<le> k"
  shows "k \<le> floor_sqrt n \<longleftrightarrow> k * k \<le> n"
proof
  let ?s = "floor_sqrt n"
  from floor_sqrt_bounds [OF assms(1)] have s: "0 \<le> ?s" "?s * ?s \<le> n" "n < (?s + 1) * (?s + 1)"
    by simp_all
  {
    assume "k \<le> ?s"
    then have "k * k \<le> ?s * ?s" using assms(2) by (intro mult_mono) simp_all
    with s(2) show "k * k \<le> n" by linarith
  }
  {
    assume kk: "k * k \<le> n"
    show "k \<le> ?s"
    proof (rule ccontr)
      assume "\<not> k \<le> ?s"
      then have "?s + 1 \<le> k" by simp
      then have "(?s + 1) * (?s + 1) \<le> k * k" using s(1) by (intro mult_mono) simp_all
      with s(3) kk show False by linarith
    qed
  }
qed

subsection \<open>The primality oracle\<close>

lemma is_prime_loop_iff:
  "is_prime_loop n i stop \<longleftrightarrow> (\<forall>k. i \<le> k \<and> k < stop \<and> even (k - i) \<longrightarrow> \<not> k dvd n)"
proof (induction n i stop rule: is_prime_loop.induct)
  case (1 n i stop)
  show ?case
  proof (cases "i < stop")
    case False
    then show ?thesis by (subst is_prime_loop.simps) auto
  next
    case True
    show ?thesis
    proof (cases "n mod i = 0")
      case div: True
      then have idvd: "i dvd n" by (simp add: mod_eq_0_iff_dvd)
      have "is_prime_loop n i stop = False"
        using True div by (subst is_prime_loop.simps) simp
      moreover have "\<not> (\<forall>k. i \<le> k \<and> k < stop \<and> even (k - i) \<longrightarrow> \<not> k dvd n)"
        using True idvd by (auto intro: exI [of _ i])
      ultimately show ?thesis by simp
    next
      case ndiv: False
      then have nidvd: "\<not> i dvd n" by (simp add: mod_eq_0_iff_dvd)
      have step: "is_prime_loop n i stop = is_prime_loop n (i + 2) stop"
        using True ndiv by (subst is_prime_loop.simps) simp
      have "(\<forall>k. i + 2 \<le> k \<and> k < stop \<and> even (k - (i + 2)) \<longrightarrow> \<not> k dvd n)
          \<longleftrightarrow> (\<forall>k. i \<le> k \<and> k < stop \<and> even (k - i) \<longrightarrow> \<not> k dvd n)"
      proof (intro iffI allI impI)
        fix k
        assume a: "\<forall>k. i + 2 \<le> k \<and> k < stop \<and> even (k - (i + 2)) \<longrightarrow> \<not> k dvd n"
          and k: "i \<le> k \<and> k < stop \<and> even (k - i)"
        show "\<not> k dvd n"
        proof (cases "k = i")
          case True
          then show ?thesis using nidvd by simp
        next
          case False
          with k have "k \<noteq> i + 1" by auto
          with False k have "i + 2 \<le> k" by linarith
          moreover have "even (k - (i + 2))" using k by simp
          ultimately show ?thesis using a [rule_format, of k] k by simp
        qed
      next
        fix k
        assume a: "\<forall>k. i \<le> k \<and> k < stop \<and> even (k - i) \<longrightarrow> \<not> k dvd n"
          and k: "i + 2 \<le> k \<and> k < stop \<and> even (k - (i + 2))"
        have "i \<le> k" and "even (k - i)" using k by simp_all
        then show "\<not> k dvd n" using a [rule_format, of k] k by simp
      qed
      then show ?thesis using "1.IH" [OF True ndiv] step by (simp only:)
    qed
  qed
qed

lemma trial_odd_iff:
  "is_prime_loop n 3 (r + 1) \<longleftrightarrow> (\<forall>k. 3 \<le> k \<and> k \<le> r \<and> odd k \<longrightarrow> \<not> k dvd n)"
proof -
  have "is_prime_loop n 3 (r + 1)
      \<longleftrightarrow> (\<forall>k. 3 \<le> k \<and> k < r + 1 \<and> even (k - 3) \<longrightarrow> \<not> k dvd n)"
    by (rule is_prime_loop_iff)
  also have "\<dots> \<longleftrightarrow> (\<forall>k. 3 \<le> k \<and> k \<le> r \<and> odd k \<longrightarrow> \<not> k dvd n)"
    by simp
  finally show ?thesis .
qed

lemma small_divisor:
  assumes n: "1 < n" and d: "1 < d" "d < n" "d dvd n"
  shows "\<exists>k. 1 < k \<and> k \<le> floor_sqrt n \<and> k dvd n"
proof -
  from d(3) obtain e where e: "n = d * e" by (auto simp: dvd_def)
  have e1: "1 < e"
  proof (rule ccontr)
    assume "\<not> 1 < e"
    then have "e \<le> 1" by simp
    then have "d * e \<le> d * 1" using d(1) by (intro mult_left_mono) simp_all
    with e d(2) show False by simp
  qed
  have n0: "0 \<le> n" using n by simp
  show ?thesis
  proof (cases "d \<le> e")
    case True
    then have "d * d \<le> d * e" using d(1) by (intro mult_left_mono) simp_all
    then have "d \<le> floor_sqrt n" using le_floor_sqrt_iff [OF n0, of d] d(1) e by simp
    with d show ?thesis by blast
  next
    case False
    then have "e * e \<le> d * e" using e1 by (intro mult_right_mono) simp_all
    then have "e \<le> floor_sqrt n" using le_floor_sqrt_iff [OF n0, of e] e1 e by simp
    moreover have "e dvd n" using e by simp
    ultimately show ?thesis using e1 by blast
  qed
qed

lemma floor_sqrt_less:
  assumes "1 < n"
  shows "floor_sqrt n < n"
proof (rule ccontr)
  assume "\<not> floor_sqrt n < n"
  then have le: "n \<le> floor_sqrt n" by simp
  have n0: "0 \<le> n" using assms by simp
  from le have "n * n \<le> n" using le_floor_sqrt_iff [OF n0 n0] by simp
  moreover have "n * 2 \<le> n * n" using assms by (intro mult_left_mono) simp_all
  ultimately show False using assms by linarith
qed

lemma prime_int_odd: "prime_int p \<Longrightarrow> 2 < p \<Longrightarrow> odd p"
  by (auto simp: prime_int_def)

lemma trial_prime_iff:
  assumes n: "2 < n" and odd: "odd n"
  shows "is_prime_loop n 3 (floor_sqrt n + 1) \<longleftrightarrow> prime_int n"
proof -
  have "(\<forall>k. 3 \<le> k \<and> k \<le> floor_sqrt n \<and> odd k \<longrightarrow> \<not> k dvd n) \<longleftrightarrow> prime_int n"
  proof
    assume a: "\<forall>k. 3 \<le> k \<and> k \<le> floor_sqrt n \<and> odd k \<longrightarrow> \<not> k dvd n"
    have "\<not> d dvd n" if d: "d \<in> {2..<n}" for d
    proof
      assume dn: "d dvd n"
      from small_divisor [of n d] d dn n obtain k where k: "1 < k" "k \<le> floor_sqrt n" "k dvd n"
        by auto
      have "odd k" using k(3) odd by (meson dvd_trans)
      then have "k \<noteq> 2" by auto
      with k(1) have "3 \<le> k" by simp
      with a k \<open>odd k\<close> show False by blast
    qed
    then show "prime_int n" using n by (simp add: prime_int_def)
  next
    assume p: "prime_int n"
    show "\<forall>k. 3 \<le> k \<and> k \<le> floor_sqrt n \<and> odd k \<longrightarrow> \<not> k dvd n"
    proof (intro allI impI)
      fix k assume k: "3 \<le> k \<and> k \<le> floor_sqrt n \<and> odd k"
      have "k < n" using k floor_sqrt_less [of n] n by simp
      then have "k \<in> {2..<n}" using k by simp
      then show "\<not> k dvd n" using p by (simp add: prime_int_def)
    qed
  qed
  then show ?thesis by (simp only: trial_odd_iff)
qed

lemma limits: "0 < exact_limit" "exact_limit < float_limit"
  by (simp_all add: exact_limit_def float_limit_def)

lemma int_root_exact:
  "0 \<le> n \<Longrightarrow> n < exact_limit \<Longrightarrow> int_root dr n = Inr (floor_sqrt n)"
  using limits by (simp add: int_root_def)

lemma int_root_double:
  "exact_limit \<le> n \<Longrightarrow> n < float_limit \<Longrightarrow> int_root dr n = Inr (dr n)"
  using limits by (simp add: int_root_def)

lemma int_root_overflow:
  "float_limit \<le> n \<or> n \<le> - float_limit \<Longrightarrow> int_root dr n = Inl OverflowError"
  by (auto simp: int_root_def)

lemma int_root_negative:
  "n < 0 \<Longrightarrow> - float_limit < n \<Longrightarrow> int_root dr n = Inl TypeError"
  using limits by (simp add: int_root_def)

lemma int_root_Inl:
  "int_root dr n = Inl e \<Longrightarrow> 0 \<le> n \<Longrightarrow> e = OverflowError \<and> float_limit \<le> n"
  by (auto simp: int_root_def split: if_splits)

lemma is_prime_below_2: "n < 2 \<Longrightarrow> is_prime dr n = Inr False"
  by (simp add: is_prime_def)

lemma is_prime_2: "is_prime dr 2 = Inr True"
  by (simp add: is_prime_def)

lemma is_prime_even: "2 < n \<Longrightarrow> even n \<Longrightarrow> is_prime dr n = Inr False"
proof -
  assume "2 < n" "even n"
  moreover from \<open>even n\<close> have "n mod 2 = 0" by presburger
  ultimately show ?thesis by (simp add: is_prime_def)
qed

lemma is_prime_odd_root:
  assumes "2 < n" and "odd n"
  shows "is_prime dr n =
    (case int_root dr n of Inl e \<Rightarrow> Inl e | Inr r \<Rightarrow> Inr (is_prime_loop n 3 (r + 1)))"
proof -
  have "n mod 2 \<noteq> 0" using assms(2) by presburger
  then show ?thesis using assms(1) by (simp add: is_prime_def)
qed

lemma is_prime_exact:
  assumes "n < exact_limit"
  shows "is_prime dr n = Inr (prime_int n)"
proof (cases "n < 2")
  case True
  then show ?thesis by (simp add: is_prime_def prime_int_def)
next
  case False
  show ?thesis
  proof (cases "n = 2")
    case True
    then show ?thesis by (simp add: is_prime_def prime_int_def)
  next
    case n2: False
    with False have n: "2 < n" by simp
    show ?thesis
    proof (cases "even n")
      case True
      moreover have "\<not> prime_int n"
        using n True by (auto simp: prime_int_def intro!: bexI [of _ 2])
      ultimately show ?thesis using is_prime_even [OF n] by simp
    next
      case odd: False
      have "int_root dr n = Inr (floor_sqrt n)"
        using n assms by (intro int_root_exact) simp_all
      then show ?thesis
        using is_prime_odd_root [OF n odd, of dr] trial_prime_iff [OF n odd] by simp
    qed
  qed
qed

lemma is_prime_Inl:
  "is_prime dr n = Inl e \<Longrightarrow> e = OverflowError \<and> float_limit \<le> n \<and> odd n"
proof -
  assume a: "is_prime dr n = Inl e"
  then have n: "2 < n" and odd: "n mod 2 \<noteq> 0"
    by (auto simp: is_prime_def split: if_splits)
  from a n odd have "int_root dr n = Inl e"
    by (auto simp: is_prime_def split: sum.splits)
  from int_root_Inl [OF this] n have "e = OverflowError \<and> float_limit \<le> n" by simp
  moreover have "odd n" using odd by presburger
  ultimately show ?thesis by simp
qed

lemma is_prime_overflow:
  assumes "float_limit \<le> n" and "odd n"
  shows "is_prime dr n = Inl OverflowError"
proof -
  have n: "2 < n" using assms(1) limits by (simp add: exact_limit_def)
  have "int_root dr n = Inl OverflowError" using assms(1) by (simp add: int_root_overflow)
  then show ?thesis using is_prime_odd_root [OF n assms(2), of dr] by simp
qed

lemma is_prime_True:
  assumes "is_prime dr n = Inr True"
  shows "2 \<le> n" and "2 < n \<Longrightarrow> odd n"
proof -
  show "2 \<le> n" using assms by (auto simp: is_prime_def split: if_splits)
  show "odd n" if "2 < n"
  proof (rule ccontr)
    assume "\<not> odd n"
    then have "is_prime dr n = Inr False" using that by (simp add: is_prime_even)
    with assms show False by simp
  qed
qed

subsection \<open>The forward search\<close>

lemma next_prime_loop_Inr:
  "next_prime_loop dr c = Some (Inr r) \<Longrightarrow>
     is_prime dr r = Inr True \<and> c \<le> r \<and> even (r - c)
     \<and> (\<forall>k. c \<le> k \<and> k < r \<and> even (k - c) \<longrightarrow> is_prime dr k = Inr False)"
proof (induction dr c "Inr r :: error + int"
    rule: next_prime_loop.raw_induct [rotated 1, consumes 1, case_names step])
  case (step f dr c)
  show ?case
  proof (cases "is_prime dr c")
    case (Inl e)
    with step(2) show ?thesis by simp
  next
    case (Inr b)
    show ?thesis
    proof (cases b)
      case True
      with step(2) Inr show ?thesis by auto
    next
      case False
      with step(2) Inr have "f dr (c + 2) = Some (Inr r)" by simp
      from step(1) [OF this] have ih: "is_prime dr r = Inr True" "c + 2 \<le> r" "even (r - (c + 2))"
        "\<forall>k. c + 2 \<le> k \<and> k < r \<and> even (k - (c + 2)) \<longrightarrow> is_prime dr k = Inr False"
        by simp_all
      have "is_prime dr k = Inr False" if k: "c \<le> k \<and> k < r \<and> even (k - c)" for k
      proof (cases "k = c")
        case True
        then show ?thesis using False Inr by simp
      next
        case ne: False
        with k have "k \<noteq> c + 1" by auto
        with ne k have "c + 2 \<le> k" by linarith
        moreover have "even (k - (c + 2))" using k by simp
        ultimately show ?thesis using ih(4) [rule_format, of k] k by simp
      qed
      moreover have "even (r - c)" using ih(3) by simp
      ultimately show ?thesis using ih(1,2) by simp
    qed
  qed
qed

lemma next_prime_loop_Inl:
  "next_prime_loop dr c = Some (Inl e) \<Longrightarrow> e = OverflowError"
proof (induction dr c "Inl e :: error + int"
    rule: next_prime_loop.raw_induct [rotated 1, consumes 1, case_names step])
  case (step f dr c)
  show ?case
  proof (cases "is_prime dr c")
    case (Inl e')
    with step(2) have "e' = e" by simp
    with Inl show ?thesis using is_prime_Inl by blast
  next
    case (Inr b)
    show ?thesis
    proof (cases b)
      case True
      with step(2) Inr show ?thesis by simp
    next
      case False
      with step(2) Inr have "f dr (c + 2) = Some (Inl e)" by simp
      from step(1) [OF this] show ?thesis .
    qed
  qed
qed

lemma next_prime_loop_reaches:
  "is_prime dr p = Inr True \<Longrightarrow> c \<le> p \<Longrightarrow> even (p - c) \<Longrightarrow> p < float_limit
     \<Longrightarrow> \<exists>r. next_prime_loop dr c = Some (Inr r) \<and> r \<le> p"
proof (induction "nat (p - c)" arbitrary: c rule: less_induct)
  case less
  show ?case
  proof (cases "is_prime dr c")
    case (Inl e)
    from is_prime_Inl [OF this] less.prems(2,4) show ?thesis by simp
  next
    case (Inr b)
    show ?thesis
    proof (cases b)
      case True
      with Inr less.prems(2) show ?thesis by (subst next_prime_loop.simps) simp
    next
      case False
      with Inr less.prems(1) have "c \<noteq> p" by auto
      moreover have "c + 1 \<noteq> p" using less.prems(3) by auto
      ultimately have le: "c + 2 \<le> p" using less.prems(2) by linarith
      then have "nat (p - (c + 2)) < nat (p - c)" by simp
      moreover have "even (p - (c + 2))" using less.prems(3) by simp
      ultimately obtain r where "next_prime_loop dr (c + 2) = Some (Inr r)" "r \<le> p"
        using less.hyps [of "c + 2"] less.prems(1,4) le by blast
      then show ?thesis using False Inr by (subst next_prime_loop.simps) simp
    qed
  qed
qed

lemma next_prime_start:
  "\<exists>c. next_prime dr n = next_prime_loop dr c \<and> odd c \<and> n < c
     \<and> (\<forall>k. n < k \<and> odd k \<longrightarrow> c \<le> k)"
proof (cases "n mod 2 = 0")
  case True
  then have "even n" by presburger
  have "next_prime dr n = next_prime_loop dr (n + 1)" using True by (simp add: next_prime_def)
  moreover have "odd (n + 1)" using \<open>even n\<close> by simp
  moreover have "\<forall>k. n < k \<and> odd k \<longrightarrow> n + 1 \<le> k" by simp
  ultimately show ?thesis by (intro exI [of _ "n + 1"]) simp
next
  case False
  then have "odd n" by presburger
  have "next_prime dr n = next_prime_loop dr (n + 2)" using False by (simp add: next_prime_def)
  moreover have "odd (n + 2)" using \<open>odd n\<close> by simp
  moreover have "\<forall>k. n < k \<and> odd k \<longrightarrow> n + 2 \<le> k"
  proof (intro allI impI)
    fix k assume k: "n < k \<and> odd k"
    then have "k \<noteq> n + 1" using \<open>odd n\<close> by auto
    with k show "n + 2 \<le> k" by simp
  qed
  ultimately show ?thesis by (intro exI [of _ "n + 2"]) simp
qed

lemma next_prime_Inr:
  assumes "next_prime dr n = Some (Inr r)"
  shows "is_prime dr r = Inr True" and "n < r" and "odd r"
    and "\<And>k. n < k \<Longrightarrow> k < r \<Longrightarrow> odd k \<Longrightarrow> is_prime dr k = Inr False"
proof -
  obtain c where c: "next_prime dr n = next_prime_loop dr c" "odd c" "n < c"
    and first: "\<And>k. n < k \<Longrightarrow> odd k \<Longrightarrow> c \<le> k"
    using next_prime_start [of dr n] by blast
  from assms c(1) have "next_prime_loop dr c = Some (Inr r)" by simp
  from next_prime_loop_Inr [OF this]
  have r: "is_prime dr r = Inr True" "c \<le> r" "even (r - c)"
    and least: "\<forall>k. c \<le> k \<and> k < r \<and> even (k - c) \<longrightarrow> is_prime dr k = Inr False"
    by simp_all
  show "is_prime dr r = Inr True" by (rule r(1))
  show "n < r" using r(2) c(3) by simp
  show "odd r" using r(3) c(2) by simp
  show "is_prime dr k = Inr False" if "n < k" "k < r" "odd k" for k
  proof -
    have "c \<le> k" using first that by simp
    moreover have "even (k - c)" using that(3) c(2) by simp
    ultimately show ?thesis using least [rule_format, of k] that(2) by simp
  qed
qed

lemma next_prime_Inl: "next_prime dr n = Some (Inl e) \<Longrightarrow> e = OverflowError"
  unfolding next_prime_def by (rule next_prime_loop_Inl)

lemma next_prime_reaches:
  assumes "is_prime dr p = Inr True" and "n < p" and "2 < p" and "p < float_limit"
  shows "\<exists>r. next_prime dr n = Some (Inr r) \<and> r \<le> p"
proof -
  obtain c where c: "next_prime dr n = next_prime_loop dr c" "odd c" "n < c"
    and first: "\<And>k. n < k \<Longrightarrow> odd k \<Longrightarrow> c \<le> k"
    using next_prime_start [of dr n] by blast
  have "odd p" using is_prime_True(2) [OF assms(1)] assms(3) by simp
  then have "c \<le> p" "even (p - c)" using first assms(2) c(2) by simp_all
  from next_prime_loop_reaches [OF assms(1) this assms(4)] c(1) show ?thesis by simp
qed

lemma next_prime_minimal:
  assumes "next_prime dr n = Some (Inr r)" and "2 \<le> n" and "r \<le> exact_limit"
  shows "prime_int r \<and> n < r \<and> (\<forall>k. n < k \<and> k < r \<longrightarrow> \<not> prime_int k)"
proof -
  note r = next_prime_Inr [OF assms(1)]
  have "\<not> prime_int k" if "n < k \<and> k < r" for k
  proof
    assume pk: "prime_int k"
    then have "odd k" using prime_int_odd that assms(2) by simp
    then have "is_prime dr k = Inr False" using r(4) that by blast
    moreover have "is_prime dr k = Inr (prime_int k)"
      using that assms(3) by (intro is_prime_exact) simp
    ultimately show False using pk by simp
  qed
  moreover have "prime_int r"
  proof (cases "r < exact_limit")
    case True
    from is_prime_exact [OF this, of dr] r(1) show ?thesis by simp
  next
    case False
    with assms(3) have "r = exact_limit" by simp
    then have "even r" by (simp add: exact_limit_def)
    with r(3) show ?thesis by simp
  qed
  ultimately show ?thesis using r(2) by simp
qed

subsection \<open>The backward search\<close>

lemma prev_prime_loop_halts: "\<exists>r. prev_prime_loop dr c = Some r"
proof (induction "nat (c - 2)" arbitrary: c rule: less_induct)
  case less
  show ?case
  proof (cases "c > 2")
    case False
    then show ?thesis by (subst prev_prime_loop.simps) simp
  next
    case True
    show ?thesis
    proof (cases "is_prime dr c")
      case (Inl e)
      then show ?thesis using True by (subst prev_prime_loop.simps) simp
    next
      case (Inr b)
      show ?thesis
      proof (cases b)
        case True
        then show ?thesis using Inr \<open>c > 2\<close> by (subst prev_prime_loop.simps) simp
      next
        case False
        have "nat (c - 2 - 2) < nat (c - 2)" using True by simp
        from less.hyps [OF this] obtain r where "prev_prime_loop dr (c - 2) = Some r" by blast
        then show ?thesis using True Inr False by (subst prev_prime_loop.simps) simp
      qed
    qed
  qed
qed

lemma prev_prime_loop_Inr:
  "prev_prime_loop dr c = Some (Inr r) \<Longrightarrow>
     r \<le> c \<and> even (c - r) \<and> (r \<le> 2 \<or> is_prime dr r = Inr True)
     \<and> (\<forall>k. r < k \<and> k \<le> c \<and> even (c - k) \<longrightarrow> is_prime dr k = Inr False)"
proof (induction dr c "Inr r :: error + int"
    rule: prev_prime_loop.raw_induct [rotated 1, consumes 1, case_names step])
  case (step f dr c)
  show ?case
  proof (cases "c > 2")
    case False
    with step(2) have "r = c" by simp
    then show ?thesis using False by auto
  next
    case True
    show ?thesis
    proof (cases "is_prime dr c")
      case (Inl e)
      with step(2) True show ?thesis by simp
    next
      case (Inr b)
      show ?thesis
      proof (cases b)
        case True
        with step(2) Inr \<open>c > 2\<close> have "r = c" by simp
        then show ?thesis using True Inr by auto
      next
        case False
        with step(2) Inr True have "f dr (c - 2) = Some (Inr r)" by simp
        from step(1) [OF this] have ih: "r \<le> c - 2" "even (c - 2 - r)"
          "r \<le> 2 \<or> is_prime dr r = Inr True"
          "\<forall>k. r < k \<and> k \<le> c - 2 \<and> even (c - 2 - k) \<longrightarrow> is_prime dr k = Inr False"
          by simp_all
        have "is_prime dr k = Inr False" if k: "r < k \<and> k \<le> c \<and> even (c - k)" for k
        proof (cases "k = c")
          case True
          then show ?thesis using False Inr by simp
        next
          case ne: False
          with k have "k \<noteq> c - 1" by auto
          with ne k have "k \<le> c - 2" by linarith
          moreover have "even (c - 2 - k)" using k by simp
          ultimately show ?thesis using ih(4) [rule_format, of k] k by simp
        qed
        moreover have "even (c - r)" using ih(2) by simp
        ultimately show ?thesis using ih(1,3) by simp
      qed
    qed
  qed
qed

lemma prev_prime_loop_Inl:
  "prev_prime_loop dr c = Some (Inl e) \<Longrightarrow> e = OverflowError \<and> float_limit \<le> c"
proof (induction dr c "Inl e :: error + int"
    rule: prev_prime_loop.raw_induct [rotated 1, consumes 1, case_names step])
  case (step f dr c)
  show ?case
  proof (cases "c > 2")
    case False
    with step(2) show ?thesis by simp
  next
    case True
    show ?thesis
    proof (cases "is_prime dr c")
      case (Inl e')
      with step(2) True have "e' = e" by simp
      with Inl show ?thesis using is_prime_Inl by blast
    next
      case (Inr b)
      show ?thesis
      proof (cases b)
        case True
        with step(2) Inr \<open>c > 2\<close> show ?thesis by simp
      next
        case False
        with step(2) Inr True have "f dr (c - 2) = Some (Inl e)" by simp
        from step(1) [OF this] show ?thesis by simp
      qed
    qed
  qed
qed

lemma prev_prime_halts: "\<exists>r. prev_prime dr n = Some r"
  unfolding prev_prime_def by (rule prev_prime_loop_halts)

lemma prev_prime_Inl:
  assumes "prev_prime dr n = Some (Inl e)"
  shows "e = OverflowError \<and> float_limit < n"
proof -
  let ?c = "if n mod 2 = 0 then n - 1 else n - 2"
  from assms have "prev_prime_loop dr ?c = Some (Inl e)" by (simp add: prev_prime_def)
  from prev_prime_loop_Inl [OF this] have "e = OverflowError" "float_limit \<le> ?c" by simp_all
  moreover have "?c < n" by simp
  ultimately show ?thesis by linarith
qed

lemma prev_prime_start:
  "\<exists>c. prev_prime dr n = prev_prime_loop dr c \<and> odd c \<and> c < n
     \<and> (\<forall>k. k < n \<and> odd k \<longrightarrow> k \<le> c)"
proof (cases "n mod 2 = 0")
  case True
  then have "even n" by presburger
  have "prev_prime dr n = prev_prime_loop dr (n - 1)" using True by (simp add: prev_prime_def)
  moreover have "odd (n - 1)" using \<open>even n\<close> by simp
  moreover have "\<forall>k. k < n \<and> odd k \<longrightarrow> k \<le> n - 1" by simp
  ultimately show ?thesis by (intro exI [of _ "n - 1"]) simp
next
  case False
  then have "odd n" by presburger
  have "prev_prime dr n = prev_prime_loop dr (n - 2)" using False by (simp add: prev_prime_def)
  moreover have "odd (n - 2)" using \<open>odd n\<close> by simp
  moreover have "\<forall>k. k < n \<and> odd k \<longrightarrow> k \<le> n - 2"
  proof (intro allI impI)
    fix k assume k: "k < n \<and> odd k"
    then have "k \<noteq> n - 1" using \<open>odd n\<close> by auto
    with k show "k \<le> n - 2" by simp
  qed
  ultimately show ?thesis by (intro exI [of _ "n - 2"]) simp
qed

lemma prev_prime_Inr:
  assumes "prev_prime dr n = Some (Inr r)"
  shows "r < n" and "odd r" and "r \<le> 2 \<or> is_prime dr r = Inr True"
    and "\<And>k. r < k \<Longrightarrow> k < n \<Longrightarrow> odd k \<Longrightarrow> is_prime dr k = Inr False"
proof -
  obtain c where c: "prev_prime dr n = prev_prime_loop dr c" "odd c" "c < n"
    and first: "\<And>k. k < n \<Longrightarrow> odd k \<Longrightarrow> k \<le> c"
    using prev_prime_start [of dr n] by blast
  from assms c(1) have "prev_prime_loop dr c = Some (Inr r)" by simp
  from prev_prime_loop_Inr [OF this]
  have r: "r \<le> c" "even (c - r)" "r \<le> 2 \<or> is_prime dr r = Inr True"
    and greatest: "\<forall>k. r < k \<and> k \<le> c \<and> even (c - k) \<longrightarrow> is_prime dr k = Inr False"
    by simp_all
  show "r < n" using r(1) c(3) by simp
  show "odd r" using r(2) c(2) by simp
  show "r \<le> 2 \<or> is_prime dr r = Inr True" by (rule r(3))
  show "is_prime dr k = Inr False" if "r < k" "k < n" "odd k" for k
  proof -
    have "k \<le> c" using first that by simp
    moreover have "even (c - k)" using that(3) c(2) by simp
    ultimately show ?thesis using greatest [rule_format, of k] that(1) by simp
  qed
qed

lemma prev_prime_returns:
  assumes "n \<le> float_limit"
  shows "\<exists>r. prev_prime dr n = Some (Inr r)"
proof -
  obtain r where r: "prev_prime dr n = Some r" using prev_prime_halts by blast
  show ?thesis
  proof (cases r)
    case (Inl e)
    with r prev_prime_Inl [of dr n e] assms show ?thesis by simp
  next
    case (Inr p)
    with r show ?thesis by simp
  qed
qed

lemma is_prime_3: "is_prime dr 3 = Inr True"
  by code_simp

lemma prev_prime_maximal:
  assumes "prev_prime dr n = Some (Inr r)" and "3 < n" and "n \<le> exact_limit"
  shows "prime_int r \<and> r < n \<and> (\<forall>k. r < k \<and> k < n \<longrightarrow> \<not> prime_int k)"
proof -
  note r = prev_prime_Inr [OF assms(1)]
  have "\<not> r \<le> 2"
  proof
    assume "r \<le> 2"
    then have "is_prime dr 3 = Inr False" using r(4) [of 3] assms(2) by simp
    then show False using is_prime_3 [of dr] by simp
  qed
  with r(3) have "is_prime dr r = Inr True" by simp
  moreover have "is_prime dr r = Inr (prime_int r)"
    using r(1) assms(3) by (intro is_prime_exact) simp
  ultimately have "prime_int r" by simp
  moreover have "\<not> prime_int k" if k: "r < k \<and> k < n" for k
  proof
    assume pk: "prime_int k"
    have "2 < k" using k \<open>\<not> r \<le> 2\<close> by simp
    then have "odd k" using pk prime_int_odd by simp
    then have "is_prime dr k = Inr False" using r(4) k by simp
    moreover have "is_prime dr k = Inr (prime_int k)"
      using k assms(3) by (intro is_prime_exact) simp
    ultimately show False using pk by simp
  qed
  ultimately show ?thesis using r(1) by simp
qed

subsection \<open>Claims about the oracle and the directional searches\<close>

lemma trial_division_iff:
  assumes "2 \<le> n"
  shows "prime_int n \<longleftrightarrow> (\<forall>d \<in> {2..floor_sqrt n}. \<not> d dvd n)"
proof
  assume p: "prime_int n"
  show "\<forall>d \<in> {2..floor_sqrt n}. \<not> d dvd n"
  proof
    fix d assume "d \<in> {2..floor_sqrt n}"
    then have "d \<in> {2..<n}" using floor_sqrt_less [of n] assms by simp
    then show "\<not> d dvd n" using p by (simp add: prime_int_def)
  qed
next
  assume a: "\<forall>d \<in> {2..floor_sqrt n}. \<not> d dvd n"
  have "\<not> d dvd n" if "d \<in> {2..<n}" for d
  proof
    assume "d dvd n"
    with small_divisor [of n d] that assms obtain k where "1 < k" "k \<le> floor_sqrt n" "k dvd n"
      by auto
    with a show False by simp
  qed
  then show "prime_int n" using assms by (simp add: prime_int_def)
qed

lemma is_prime_odd_exact:
  assumes "2 < n" and "odd n" and "n < exact_limit"
  shows "is_prime dr n = Inr (\<not> (\<exists>i \<in> {3..floor_sqrt n}. odd i \<and> i dvd n))"
proof -
  have "int_root dr n = Inr (floor_sqrt n)" using assms by (intro int_root_exact) simp_all
  then have "is_prime dr n = Inr (is_prime_loop n 3 (floor_sqrt n + 1))"
    using is_prime_odd_root [OF assms(1,2), of dr] by simp
  moreover have "is_prime_loop n 3 (floor_sqrt n + 1)
      \<longleftrightarrow> \<not> (\<exists>i \<in> {3..floor_sqrt n}. odd i \<and> i dvd n)"
    unfolding trial_odd_iff by auto
  ultimately show ?thesis by simp
qed

lemma is_prime_odd_double:
  assumes "2 < n" and "odd n" and "exact_limit \<le> n" and "n < float_limit"
  shows "is_prime dr n = Inr (\<not> (\<exists>i \<in> {3..dr n}. odd i \<and> i dvd n))"
proof -
  have "int_root dr n = Inr (dr n)" using assms by (intro int_root_double)
  then have "is_prime dr n = Inr (is_prime_loop n 3 (dr n + 1))"
    using is_prime_odd_root [OF assms(1,2), of dr] by simp
  moreover have "is_prime_loop n 3 (dr n + 1) \<longleftrightarrow> \<not> (\<exists>i \<in> {3..dr n}. odd i \<and> i dvd n)"
    unfolding trial_odd_iff by auto
  ultimately show ?thesis by simp
qed

text \<open>
  Claim C3, as the code has it. For every integer \<open>n\<close> below \<open>2^52\<close>, \<open>is_prime\<close> returns
  whether \<open>n\<close> is prime: for an odd \<open>n\<close> above 2 it returns false exactly when an odd integer
  from 3 up to the floor of the square root of \<open>n\<close> divides \<open>n\<close>, and from 2 on it agrees with
  trial division by every integer from 2 up to that floor. Whatever the size of \<open>n\<close>, it
  returns false below 2, true at 2 and false for an even number above 2. For an odd \<open>n\<close> from
  \<open>2^52\<close> on it tests the odd integers up to the double root \<^verbatim>\<open>int(n ** 0.5)\<close>, and from
  \<open>2^1024 - 2^970\<close> on it raises \<^verbatim>\<open>OverflowError\<close>.
\<close>

theorem is_prime_correct:
  "(n < 2 ^ 52 \<longrightarrow> is_prime dr n = Inr (prime_int n))
   \<and> (n < 2 \<longrightarrow> is_prime dr n = Inr False)
   \<and> is_prime dr 2 = Inr True
   \<and> (2 < n \<and> even n \<longrightarrow> is_prime dr n = Inr False)
   \<and> (2 < n \<and> odd n \<and> n < 2 ^ 52 \<longrightarrow>
        is_prime dr n = Inr (\<not> (\<exists>i \<in> {3..floor_sqrt n}. odd i \<and> i dvd n)))
   \<and> (2 \<le> n \<and> n < 2 ^ 52 \<longrightarrow>
        is_prime dr n = Inr (\<forall>d \<in> {2..floor_sqrt n}. \<not> d dvd n))
   \<and> (0 \<le> n \<longrightarrow>
        floor_sqrt n * floor_sqrt n \<le> n \<and> n < (floor_sqrt n + 1) * (floor_sqrt n + 1))
   \<and> (2 < n \<and> odd n \<and> 2 ^ 52 \<le> n \<and> n < 2 ^ 1024 - 2 ^ 970 \<longrightarrow>
        is_prime dr n = Inr (\<not> (\<exists>i \<in> {3..dr n}. odd i \<and> i dvd n)))
   \<and> (odd n \<and> 2 ^ 1024 - 2 ^ 970 \<le> n \<longrightarrow> is_prime dr n = Inl OverflowError)"
proof (intro conjI impI)
  show "is_prime dr n = Inr (prime_int n)" if "n < 2 ^ 52"
    using that by (intro is_prime_exact) (simp add: exact_limit_def)
  show "is_prime dr n = Inr False" if "n < 2" using that by (rule is_prime_below_2)
  show "is_prime dr 2 = Inr True" by (rule is_prime_2)
  show "is_prime dr n = Inr False" if "2 < n \<and> even n" using that by (simp add: is_prime_even)
  show "is_prime dr n = Inr (\<not> (\<exists>i \<in> {3..floor_sqrt n}. odd i \<and> i dvd n))"
    if "2 < n \<and> odd n \<and> n < 2 ^ 52"
    using that by (intro is_prime_odd_exact) (simp_all add: exact_limit_def)
  show "is_prime dr n = Inr (\<forall>d \<in> {2..floor_sqrt n}. \<not> d dvd n)" if "2 \<le> n \<and> n < 2 ^ 52"
  proof -
    have "is_prime dr n = Inr (prime_int n)"
      using that by (intro is_prime_exact) (simp add: exact_limit_def)
    then show ?thesis using trial_division_iff [of n] that by simp
  qed
  show "floor_sqrt n * floor_sqrt n \<le> n" if "0 \<le> n"
    using floor_sqrt_bounds [OF that] by simp
  show "n < (floor_sqrt n + 1) * (floor_sqrt n + 1)" if "0 \<le> n"
    using floor_sqrt_bounds [OF that] by simp
  show "is_prime dr n = Inr (\<not> (\<exists>i \<in> {3..dr n}. odd i \<and> i dvd n))"
    if "2 < n \<and> odd n \<and> 2 ^ 52 \<le> n \<and> n < 2 ^ 1024 - 2 ^ 970"
    using that by (intro is_prime_odd_double) (simp_all add: exact_limit_def float_limit_def)
  show "is_prime dr n = Inl OverflowError" if "odd n \<and> 2 ^ 1024 - 2 ^ 970 \<le> n"
    using that by (intro is_prime_overflow) (simp_all add: float_limit_def)
qed

theorem is_prime_correct_witness:
  "(47893197 :: int) < 2 ^ 52 \<and> (2::int) < 47893197 \<and> odd (47893197::int)
   \<and> is_prime floor_sqrt 47893197 = Inr False \<and> \<not> prime_int 47893197
   \<and> (\<exists>i \<in> {3..floor_sqrt 47893197}. odd i \<and> i dvd 47893197)
   \<and> floor_sqrt 47893197 = 6920
   \<and> odd (2 ^ 1024 + 1 :: int) \<and> (2 ^ 1024 - 2 ^ 970 :: int) \<le> 2 ^ 1024 + 1
   \<and> is_prime floor_sqrt (2 ^ 1024 + 1) = Inl OverflowError"
proof -
  have fs: "floor_sqrt 47893197 = 6920"
    by (rule floor_sqrt_unique) simp_all
  have "(3::int) dvd 47893197" by simp
  then have np: "\<not> prime_int 47893197"
    by (auto simp: prime_int_def intro!: bexI [of _ 3])
  have h: "(47893197 :: int) < 2 ^ 52" "(2::int) < 47893197" "odd (47893197::int)" by simp_all
  have g: "odd (2 ^ 1024 + 1 :: int)" "(2 ^ 1024 - 2 ^ 970 :: int) \<le> 2 ^ 1024 + 1" by simp_all
  from is_prime_correct [of 47893197 floor_sqrt] h np
  have a: "is_prime floor_sqrt 47893197 = Inr False"
    and b: "\<exists>i \<in> {3..floor_sqrt 47893197}. odd i \<and> i dvd 47893197"
    by auto
  from is_prime_correct [of "2 ^ 1024 + 1" floor_sqrt] g
  have c: "is_prime floor_sqrt (2 ^ 1024 + 1) = Inl OverflowError" by blast
  show ?thesis by (intro conjI h np a b fs g c)
qed

text \<open>
  The claim as it was stated, for every integer, fails at \<open>2^1024 + 1\<close>: the call does not
  return whether the number is prime, it raises \<^verbatim>\<open>OverflowError\<close>.
\<close>

theorem is_prime_every_integer_counterexample:
  "\<forall>dr. is_prime dr (2 ^ 1024 + 1) = Inl OverflowError
     \<and> is_prime dr (2 ^ 1024 + 1) \<noteq> Inr (prime_int (2 ^ 1024 + 1))"
proof -
  have "odd (2 ^ 1024 + 1 :: int)" by simp
  moreover have "float_limit \<le> 2 ^ 1024 + 1" by (simp add: float_limit_def)
  ultimately have "is_prime dr (2 ^ 1024 + 1) = Inl OverflowError" for dr
    by (intro is_prime_overflow)
  then show ?thesis by simp
qed

text \<open>
  Claim C4 (the code departs from it). \<open>next_prime\<close> is to return the least prime above
  \<open>n\<close>. Called with 1 it returns 3, although the oracle itself accepts 2, which lies
  strictly between 1 and 3: the search starts at an odd candidate and moves in steps of 2.
\<close>

theorem next_prime_skips_2:
  "next_prime dr 1 = Some (Inr 3) \<and> is_prime dr 2 = Inr True \<and> (1::int) < 2 \<and> (2::int) < 3"
proof -
  have "next_prime dr 1 = Some (Inr 3)" by code_simp
  then show ?thesis by (simp add: is_prime_2)
qed

text \<open>
  Claim C5 (the code departs from it). \<open>prev_prime\<close> is to return the largest prime below
  \<open>n\<close>, with 2 as the floor. Called with 3 it returns 1, which is neither a prime nor 2: the
  first candidate is \<open>n - 2 = 1\<close>, and the loop guard \<open>candidate > 2\<close> ends the search there.
\<close>

theorem prev_prime_3_returns_1:
  "prev_prime dr 3 = Some (Inr 1) \<and> is_prime dr 1 = Inr False \<and> is_prime dr 2 = Inr True
   \<and> (2::int) < 3"
proof -
  have "prev_prime dr 3 = Some (Inr 1)" by code_simp
  then show ?thesis by (simp add: is_prime_2 is_prime_below_2)
qed


subsection \<open>Sequencing of calls that may raise\<close>

lemma bind_case_Inr:
  "(do { r \<leftarrow> m; case r of Inl e \<Rightarrow> Some (Inl e) | Inr x \<Rightarrow> k x }) = Some (Inr v)
     \<longleftrightarrow> (\<exists>x. m = Some (Inr x) \<and> k x = Some (Inr v))"
  by (cases m) (auto split: sum.splits)

lemma bind_case_Inl:
  "(do { r \<leftarrow> m; case r of Inl e \<Rightarrow> Some (Inl e) | Inr x \<Rightarrow> k x }) = Some (Inl e')
     \<longleftrightarrow> m = Some (Inl e') \<or> (\<exists>x. m = Some (Inr x) \<and> k x = Some (Inl e'))"
  by (cases m) (auto split: sum.splits)

lemma bind_case_halts:
  "m = Some r \<Longrightarrow> (\<And>x. r = Inr x \<Longrightarrow> \<exists>r'. k x = Some r')
     \<Longrightarrow> \<exists>r'. (do { r \<leftarrow> m; case r of Inl e \<Rightarrow> Some (Inl e) | Inr x \<Rightarrow> k x }) = Some r'"
  by (cases r) auto

subsection \<open>The target-digit constructor\<close>

lemma shrink_loop_Inr:
  "shrink_loop dr d p q n = Some (Inr (p', q', n')) \<Longrightarrow>
     p' = p \<and> length (str_int n') \<le> d \<and> (n = p * q \<longrightarrow> n' = p' * q')"
proof (induction dr d p q n "Inr (p', q', n') :: error + triple"
    rule: shrink_loop.raw_induct [rotated 1, consumes 1, case_names step])
  case (step f dr d p q n)
  show ?case
  proof (cases "length (str_int n) > d")
    case False
    with step(2) show ?thesis by auto
  next
    case True
    with step(2) obtain q1 where "prev_prime dr q = Some (Inr q1)"
      "f dr d p q1 (p * q1) = Some (Inr (p', q', n'))"
      by (auto simp: bind_case_Inr)
    from step(1) [OF this(2)] show ?thesis by auto
  qed
qed

lemma grow_loop_Inr:
  "grow_loop dr d p q n = Some (Inr (p', q', n')) \<Longrightarrow>
     p' = p \<and> d \<le> length (str_int n') \<and> (n = p * q \<longrightarrow> n' = p' * q')"
proof (induction dr d p q n "Inr (p', q', n') :: error + triple"
    rule: grow_loop.raw_induct [rotated 1, consumes 1, case_names step])
  case (step f dr d p q n)
  show ?case
  proof (cases "length (str_int n) < d")
    case False
    with step(2) show ?thesis by auto
  next
    case True
    with step(2) obtain q1 where "next_prime dr q = Some (Inr q1)"
      "f dr d p q1 (p * q1) = Some (Inr (p', q', n'))"
      by (auto simp: bind_case_Inr)
    from step(1) [OF this(2)] show ?thesis by auto
  qed
qed

lemma generate_semiprime_Inr:
  assumes "generate_semiprime dr d = Some (Inr (p, q, n))"
  shows "next_prime dr (10 ^ (d div 2)) = Some (Inr p)" and "n = p * q"
    and "d \<le> length (str_int n)"
proof -
  from assms obtain p0 q0 p1 q1 n1 where
    p0: "next_prime dr (10 ^ (d div 2)) = Some (Inr p0)"
    and q0: "next_prime dr (10 ^ d div p0) = Some (Inr q0)"
    and s: "shrink_loop dr d p0 q0 (p0 * q0) = Some (Inr (p1, q1, n1))"
    and g: "grow_loop dr d p1 q1 n1 = Some (Inr (p, q, n))"
    by (auto simp: generate_semiprime_def Let_def bind_case_Inr)
  from shrink_loop_Inr [OF s] have "p1 = p0" "n1 = p1 * q1" by simp_all
  moreover from grow_loop_Inr [OF g]
  have "p = p1" "d \<le> length (str_int n)" "n1 = p1 * q1 \<longrightarrow> n = p * q"
    by simp_all
  ultimately show "next_prime dr (10 ^ (d div 2)) = Some (Inr p)" "n = p * q"
    "d \<le> length (str_int n)"
    using p0 by simp_all
qed

lemma generate_semiprime_2: "generate_semiprime dr 2 = Some (Inr (11, 7, 77))"
  by code_simp

text \<open>
  Claim C8. Whenever \<open>generate_semiprime d\<close> returns, the first component of its triple is
  the prime returned by \<open>next_prime (10 ^ (d div 2))\<close>: the shrink and the grow loop, which
  run on the three local variables, change \<open>q\<close> and \<open>product\<close> only. This holds on every
  platform, that is, for every \<open>double_root\<close>.
\<close>

theorem generate_semiprime_keeps_p:
  "generate_semiprime dr d = Some (Inr (p, q, product))
     \<Longrightarrow> next_prime dr (10 ^ (d div 2)) = Some (Inr p)"
  by (rule generate_semiprime_Inr(1))

theorem generate_semiprime_keeps_p_witness:
  "\<forall>dr. generate_semiprime dr 2 = Some (Inr (11, 7, 77))
     \<and> next_prime dr (10 ^ (2 div 2)) = Some (Inr 11)"
  using generate_semiprime_keeps_p [OF generate_semiprime_2] generate_semiprime_2 by simp

subsection \<open>The range enumerator\<close>

lemma next_prime_loop_halts:
  "odd c \<Longrightarrow> \<exists>r. next_prime_loop dr c = Some r"
proof (induction "nat (float_limit - c)" arbitrary: c rule: less_induct)
  case less
  show ?case
  proof (cases "is_prime dr c")
    case (Inl e)
    then show ?thesis by (subst next_prime_loop.simps) simp
  next
    case (Inr b)
    show ?thesis
    proof (cases b)
      case True
      with Inr show ?thesis by (subst next_prime_loop.simps) simp
    next
      case False
      have "c < float_limit"
      proof (rule ccontr)
        assume "\<not> c < float_limit"
        then have "is_prime dr c = Inl OverflowError"
          using less.prems by (intro is_prime_overflow) simp_all
        with Inr show False by simp
      qed
      then have "nat (float_limit - (c + 2)) < nat (float_limit - c)" by simp
      moreover have "odd (c + 2)" using less.prems by simp
      ultimately obtain r where "next_prime_loop dr (c + 2) = Some r"
        using less.hyps [of "c + 2"] by blast
      then show ?thesis using False Inr by (subst next_prime_loop.simps) simp
    qed
  qed
qed

lemma next_prime_halts: "\<exists>r. next_prime dr n = Some r"
proof -
  obtain c where "next_prime dr n = next_prime_loop dr c" "odd c"
    using next_prime_start [of dr n] by blast
  then show ?thesis using next_prime_loop_halts [of c dr] by simp
qed

lemma next_prime_returns:
  assumes "prime_int P" and "2 < P" and "P < exact_limit" and "n < P"
  shows "\<exists>r. next_prime dr n = Some (Inr r) \<and> r \<le> P"
proof -
  have "is_prime dr P = Inr True" using is_prime_exact [OF assms(3), of dr] assms(1) by simp
  moreover have "P < float_limit" using assms(3) limits(2) by simp
  ultimately show ?thesis using assms(2,4) by (intro next_prime_reaches)
qed

lemma inner_loop_Inr:
  "inner_loop dr mn mx count p q n rs = Some (Inr rs') \<Longrightarrow> n = p * q \<Longrightarrow>
     \<exists>new. rs' = rs @ new
       \<and> (\<forall>t \<in> set new. in_range_entry mn mx t \<and> fst t = p \<and> q \<le> fst (snd t))
       \<and> sorted_wrt appended_before new
       \<and> (int (length rs) < count \<longrightarrow> int (length rs') \<le> count)"
proof (induction dr mn mx count p q n rs "Inr rs' :: error + triple list" arbitrary: rs'
    rule: inner_loop.raw_induct [rotated 1, consumes 1, case_names step])
  case (step f dr mn mx count p q n rs rs')
  let ?hit = "mn \<le> n \<and> n \<le> mx \<and> length (str_int n) = length (str_int mn)"
  let ?t = "(p, q, n)"
  show ?case
  proof (cases "n \<le> mx")
    case False
    with step(2) have "rs' = rs" by simp
    then show ?thesis by simp
  next
    case le: True
    show ?thesis
    proof (cases ?hit)
      case hit: True
      have t: "in_range_entry mn mx ?t" using hit step(3) by (simp add: in_range_entry_def)
      show ?thesis
      proof (cases "int (length (rs @ [?t])) \<ge> count")
        case True
        with step(2) hit have "rs' = rs @ [?t]" by simp
        then show ?thesis using t by simp
      next
        case False
        with step(2) hit obtain q1 where q1: "next_prime dr q = Some (Inr q1)"
          and rec: "f dr mn mx count p q1 (p * q1) (rs @ [?t]) = Some (Inr rs')"
          by (auto simp: bind_case_Inr)
        have lt: "q < q1" using next_prime_Inr(2) [OF q1] .
        from step(1) [OF rec refl] obtain new where new: "rs' = (rs @ [?t]) @ new"
          "\<forall>t \<in> set new. in_range_entry mn mx t \<and> fst t = p \<and> q1 \<le> fst (snd t)"
          "sorted_wrt appended_before new"
          "int (length (rs @ [?t])) < count \<longrightarrow> int (length rs') \<le> count"
          by blast
        have "rs' = rs @ (?t # new)" using new(1) by simp
        moreover have "\<forall>t \<in> set (?t # new). in_range_entry mn mx t \<and> fst t = p \<and> q \<le> fst (snd t)"
          using new(2) t lt by auto
        moreover have "sorted_wrt appended_before (?t # new)"
          using new(2,3) lt by (auto simp: appended_before_def)
        moreover have "int (length rs') \<le> count" using new(4) False by simp
        ultimately show ?thesis by blast
      qed
    next
      case False
      with step(2) le obtain q1 where q1: "next_prime dr q = Some (Inr q1)"
        and rec: "f dr mn mx count p q1 (p * q1) rs = Some (Inr rs')"
        by (auto simp: bind_case_Inr)
      have lt: "q < q1" using next_prime_Inr(2) [OF q1] .
      from step(1) [OF rec refl] obtain new where new: "rs' = rs @ new"
        "\<forall>t \<in> set new. in_range_entry mn mx t \<and> fst t = p \<and> q1 \<le> fst (snd t)"
        "sorted_wrt appended_before new"
        "int (length rs) < count \<longrightarrow> int (length rs') \<le> count"
        by blast
      have "\<forall>t \<in> set new. in_range_entry mn mx t \<and> fst t = p \<and> q \<le> fst (snd t)"
        using new(2) lt by auto
      with new(1,3,4) show ?thesis by blast
    qed
  qed
qed

lemma inner_loop_Inl:
  "inner_loop dr mn mx count p q n rs = Some (Inl e) \<Longrightarrow> e = OverflowError"
proof (induction dr mn mx count p q n rs "Inl e :: error + triple list"
    rule: inner_loop.raw_induct [rotated 1, consumes 1, case_names step])
  case (step f dr mn mx count p q n rs)
  from step(2) have
    "next_prime dr q = Some (Inl e)
     \<or> (\<exists>q1 rs1. f dr mn mx count p q1 (p * q1) rs1 = Some (Inl e))"
    by (auto simp: bind_case_Inl split: if_splits)
  then show ?case using step(1) next_prime_Inl by blast
qed

lemma inner_loop_halts:
  assumes "0 < p"
  shows "\<exists>r. inner_loop dr mn mx count p q (p * q) rs = Some r"
proof (induction "nat (mx + 1 - p * q)" arbitrary: q rs rule: less_induct)
  case less
  let ?n = "p * q"
  show ?case
  proof (cases "?n \<le> mx")
    case False
    then show ?thesis by (subst inner_loop.simps) simp
  next
    case True
    obtain r where r: "next_prime dr q = Some r" using next_prime_halts by blast
    have rec: "\<exists>r'. inner_loop dr mn mx count p q1 (p * q1) rs0 = Some r'"
      if "r = Inr q1" for q1 rs0
    proof -
      have "q < q1" using next_prime_Inr(2) [of dr q q1] r that by simp
      then have "p * q < p * q1" using assms by simp
      then have "nat (mx + 1 - p * q1) < nat (mx + 1 - p * q)" using True by simp
      from less.hyps [OF this] show ?thesis by blast
    qed
    show ?thesis
    proof (cases r)
      case (Inl e)
      with r True show ?thesis by (subst inner_loop.simps) simp
    next
      case (Inr q1)
      with r True rec [OF Inr, of rs] rec [OF Inr, of "rs @ [(p, q, ?n)]"]
      show ?thesis by (subst inner_loop.simps) auto
    qed
  qed
qed

lemma inner_loop_returns:
  assumes "0 < p" and "prime_int P" and "2 < P" and "P < exact_limit" and "mx < P"
  shows "\<exists>rs'. inner_loop dr mn mx count p q (p * q) rs = Some (Inr rs')"
proof (induction "nat (mx + 1 - p * q)" arbitrary: q rs rule: less_induct)
  case less
  let ?n = "p * q"
  show ?case
  proof (cases "?n \<le> mx")
    case False
    then show ?thesis by (subst inner_loop.simps) simp
  next
    case True
    have "q < P"
    proof (cases "q \<le> 0")
      case True
      then show ?thesis using assms(3) by simp
    next
      case False
      then have "1 * q \<le> p * q" using assms(1) by (intro mult_right_mono) simp_all
      then show ?thesis using True assms(5) by simp
    qed
    from next_prime_returns [OF assms(2,3,4) this, of dr]
    obtain q1 where q1: "next_prime dr q = Some (Inr q1)" by blast
    have "q < q1" using next_prime_Inr(2) [OF q1] .
    then have "p * q < p * q1" using assms(1) by simp
    then have "nat (mx + 1 - p * q1) < nat (mx + 1 - p * q)" using True by simp
    from less.hyps [OF this]
    have rec: "\<exists>rs'. inner_loop dr mn mx count p q1 (p * q1) rs0 = Some (Inr rs')" for rs0
      by blast
    show ?thesis
      using True q1 rec [of rs] rec [of "rs @ [(p, q, ?n)]"]
      by (subst inner_loop.simps) auto
  qed
qed

lemma outer_body_Inr:
  assumes "outer_body dr mn mx count (rs, p) = Some (Inr (rs', p'))"
  shows "p < p'" and "is_prime dr p' = Inr True"
    and "\<exists>new. rs' = rs @ new
       \<and> (\<forall>t \<in> set new. in_range_entry mn mx t \<and> fst t = p)
       \<and> sorted_wrt appended_before new
       \<and> (int (length rs) < count \<longrightarrow> int (length rs') \<le> count)"
proof -
  from assms obtain q where q: "next_prime dr (mn div p) = Some (Inr q)"
    and inner: "inner_loop dr mn mx count p q (p * q) rs = Some (Inr rs')"
    and p': "next_prime dr p = Some (Inr p')"
    by (auto simp: outer_body_def bind_case_Inr)
  show "p < p'" "is_prime dr p' = Inr True" using next_prime_Inr(1,2) [OF p'] by simp_all
  from inner_loop_Inr [OF inner refl]
  show "\<exists>new. rs' = rs @ new
       \<and> (\<forall>t \<in> set new. in_range_entry mn mx t \<and> fst t = p)
       \<and> sorted_wrt appended_before new
       \<and> (int (length rs) < count \<longrightarrow> int (length rs') \<le> count)"
    by blast
qed

lemma outer_body_Inl:
  "outer_body dr mn mx count s = Some (Inl e) \<Longrightarrow> e = OverflowError"
  using next_prime_Inl inner_loop_Inl
  by (cases s) (auto simp: outer_body_def bind_case_Inl)

lemma outer_body_halts:
  assumes "0 < p"
  shows "\<exists>r. outer_body dr mn mx count (rs, p) = Some r"
proof -
  obtain rq where rq: "next_prime dr (mn div p) = Some rq" using next_prime_halts by blast
  obtain rp where rp: "next_prime dr p = Some rp" using next_prime_halts by blast
  show ?thesis
  proof (cases rq)
    case (Inl e)
    with rq show ?thesis by (simp add: outer_body_def)
  next
    case (Inr q)
    obtain ri where ri: "inner_loop dr mn mx count p q (p * q) rs = Some ri"
      using inner_loop_halts [OF assms] by blast
    show ?thesis using rq Inr ri rp
      by (cases ri; cases rp) (simp_all add: outer_body_def)
  qed
qed

lemma outer_body_returns:
  assumes "0 < p" and "prime_int P" and "2 < P" and "P < exact_limit" and "mx < P"
    and "0 \<le> mn" and "mn < P" and "p < P"
  shows "\<exists>s'. outer_body dr mn mx count (rs, p) = Some (Inr s')"
proof -
  have "mn div p \<le> mn" using zdiv_mono2 [of mn 1 p] assms(1,6) by simp
  then have "mn div p < P" using assms(7) by simp
  from next_prime_returns [OF assms(2,3,4) this, of dr]
  obtain q where q: "next_prime dr (mn div p) = Some (Inr q)" by blast
  obtain rs' where "inner_loop dr mn mx count p q (p * q) rs = Some (Inr rs')"
    using inner_loop_returns [OF assms(1,2,3,4,5)] by blast
  moreover obtain p' where "next_prime dr p = Some (Inr p')"
    using next_prime_returns [OF assms(2,3,4,8), of dr] by blast
  ultimately show ?thesis using q by (simp add: outer_body_def)
qed

lemma outer_loop_halts:
  assumes "0 < p"
  shows "\<exists>r. outer_loop dr mn mx count rs p = Some r"
  using assms
proof (induction "nat (mx - p * p)" arbitrary: p rs rule: less_induct)
  case less
  show ?case
  proof (cases "int (length rs) < count \<and> p * p < mx")
    case False
    then show ?thesis by (subst outer_loop.simps) auto
  next
    case True
    obtain r where body: "outer_body dr mn mx count (rs, p) = Some r"
      using outer_body_halts [OF less.prems] by blast
    show ?thesis
    proof (cases r)
      case (Inl e)
      with body True show ?thesis by (subst outer_loop.simps) simp
    next
      case (Inr s)
      obtain rs1 p1 where s: "s = (rs1, p1)" by (cases s)
      have lt: "p < p1" using outer_body_Inr(1) [of dr mn mx count rs p rs1 p1] body Inr s by simp
      then have "p * p < p1 * p1" using less.prems by (intro mult_strict_mono) simp_all
      then have "nat (mx - p1 * p1) < nat (mx - p * p)" using True by simp
      moreover have "0 < p1" using lt less.prems by simp
      ultimately obtain r' where "outer_loop dr mn mx count rs1 p1 = Some r'"
        using less.hyps by blast
      then show ?thesis using True body Inr s by (subst outer_loop.simps) simp
    qed
  qed
qed

lemma outer_loop_returns:
  assumes "prime_int P" and "2 < P" and "P < exact_limit" and "mx < P"
    and "0 \<le> mn" and "mn < P" and "0 < p"
  shows "\<exists>rs'. outer_loop dr mn mx count rs p = Some (Inr rs')"
  using assms(7)
proof (induction "nat (mx - p * p)" arbitrary: p rs rule: less_induct)
  case less
  show ?case
  proof (cases "int (length rs) < count \<and> p * p < mx")
    case False
    then show ?thesis by (subst outer_loop.simps) auto
  next
    case True
    have "1 * p \<le> p * p" using less.prems by (intro mult_right_mono) simp_all
    then have "p < P" using True assms(4) by simp
    from outer_body_returns [OF less.prems assms(1,2,3,4,5,6) this]
    obtain rs1 p1 where body: "outer_body dr mn mx count (rs, p) = Some (Inr (rs1, p1))"
      by fastforce
    have lt: "p < p1" using outer_body_Inr(1) [OF body] .
    then have "p * p < p1 * p1" using less.prems by (intro mult_strict_mono) simp_all
    then have "nat (mx - p1 * p1) < nat (mx - p * p)" using True by simp
    moreover have "0 < p1" using lt less.prems by simp
    ultimately obtain rs' where "outer_loop dr mn mx count rs1 p1 = Some (Inr rs')"
      using less.hyps by blast
    then show ?thesis using True body by (subst outer_loop.simps) simp
  qed
qed

lemma outer_loop_Inr:
  "outer_loop dr mn mx count rs p = Some (Inr rs') \<Longrightarrow>
     \<exists>new. rs' = rs @ new
       \<and> (\<forall>t \<in> set new. in_range_entry mn mx t \<and> p \<le> fst t \<and> fst t * fst t < mx)
       \<and> sorted_wrt appended_before new
       \<and> (int (length rs) \<le> count \<longrightarrow> int (length rs') \<le> count)"
proof (induction dr mn mx count rs p "Inr rs' :: error + triple list"
    rule: outer_loop.raw_induct [rotated 1, consumes 1, case_names step])
  case (step f dr mn mx count rs p)
  show ?case
  proof (cases "int (length rs) < count \<and> p * p < mx")
    case False
    with step(2) have "rs' = rs" by (simp split: if_splits)
    then show ?thesis by simp
  next
    case True
    with step(2) obtain rs1 p1 where body: "outer_body dr mn mx count (rs, p) = Some (Inr (rs1, p1))"
      and rec: "f dr mn mx count rs1 p1 = Some (Inr rs')"
      by (auto simp: bind_case_Inr)
    have lt: "p < p1" using outer_body_Inr(1) [OF body] .
    from outer_body_Inr(3) [OF body] obtain new1 where new1: "rs1 = rs @ new1"
      "\<forall>t \<in> set new1. in_range_entry mn mx t \<and> fst t = p"
      "sorted_wrt appended_before new1"
      "int (length rs) < count \<longrightarrow> int (length rs1) \<le> count"
      by blast
    from step(1) [OF rec] obtain new2 where new2: "rs' = rs1 @ new2"
      "\<forall>t \<in> set new2. in_range_entry mn mx t \<and> p1 \<le> fst t \<and> fst t * fst t < mx"
      "sorted_wrt appended_before new2"
      "int (length rs1) \<le> count \<longrightarrow> int (length rs') \<le> count"
      by blast
    have "rs' = rs @ (new1 @ new2)" using new1(1) new2(1) by simp
    moreover have "\<forall>t \<in> set (new1 @ new2). in_range_entry mn mx t \<and> p \<le> fst t \<and> fst t * fst t < mx"
      using new1(2) new2(2) lt True by auto
    moreover have "sorted_wrt appended_before (new1 @ new2)"
      using new1(2,3) new2(2,3) lt by (fastforce simp: sorted_wrt_append appended_before_def)
    moreover have "int (length rs') \<le> count" using new1(4) new2(4) True by simp
    ultimately show ?thesis by blast
  qed
qed

lemma outer_loop_Inl:
  "outer_loop dr mn mx count rs p = Some (Inl e) \<Longrightarrow> e = OverflowError"
proof (induction dr mn mx count rs p "Inl e :: error + triple list"
    rule: outer_loop.raw_induct [rotated 1, consumes 1, case_names step])
  case (step f dr mn mx count rs p)
  from step(2) have
    "outer_body dr mn mx count (rs, p) = Some (Inl e)
     \<or> (\<exists>rs1 p1. f dr mn mx count rs1 p1 = Some (Inl e))"
    by (auto simp: bind_case_Inl split: if_splits)
  then show ?case using step(1) outer_body_Inl by blast
qed

lemma outer_loop_while_run:
  "outer_loop dr mn mx count rs p = Some (Inr rs') \<Longrightarrow>
     \<exists>p'. while_run (\<lambda>(results, p). int (length results) < count \<and> p * p < mx)
            (outer_body dr mn mx count) (rs, p) (rs', p')"
proof (induction dr mn mx count rs p "Inr rs' :: error + triple list"
    rule: outer_loop.raw_induct [rotated 1, consumes 1, case_names step])
  case (step f dr mn mx count rs p)
  let ?cond = "\<lambda>(results, p). int (length results) < count \<and> p * p < mx"
  show ?case
  proof (cases "int (length rs) < count \<and> p * p < mx")
    case False
    with step(2) have "rs' = rs" by (simp split: if_splits)
    moreover have "while_run ?cond (outer_body dr mn mx count) (rs, p) (rs, p)"
      using False by (intro while_run.leave) simp
    ultimately show ?thesis by blast
  next
    case True
    with step(2) obtain rs1 p1 where body: "outer_body dr mn mx count (rs, p) = Some (Inr (rs1, p1))"
      and rec: "f dr mn mx count rs1 p1 = Some (Inr rs')"
      by (auto simp: bind_case_Inr)
    from step(1) [OF rec] obtain p' where
      w: "while_run ?cond (outer_body dr mn mx count) (rs1, p1) (rs', p')" by blast
    have c: "?cond (rs, p)" using True by simp
    have "while_run ?cond (outer_body dr mn mx count) (rs, p) (rs', p')"
      by (rule while_run.pass [OF c body w])
    then show ?thesis by blast
  qed
qed

lemma while_run_outer_loop:
  "while_run (\<lambda>(results, p). int (length results) < count \<and> p * p < mx)
     (outer_body dr mn mx count) s t
     \<Longrightarrow> outer_loop dr mn mx count (fst s) (snd s) = Some (Inr (fst t))"
proof (induction rule: while_run.induct)
  case (leave s)
  then show ?case by (subst outer_loop.simps) (auto simp: case_prod_unfold)
next
  case (pass s s' t)
  then show ?case by (subst outer_loop.simps) (auto simp: case_prod_unfold)
qed

lemma find_semiprimes_in_range_Inr:
  "find_semiprimes_in_range dr mn mx count = Some (Inr rs) \<longleftrightarrow>
     (\<exists>root p0. int_root dr mn = Inr root \<and> next_prime dr root = Some (Inr p0)
        \<and> outer_loop dr mn mx count [] p0 = Some (Inr rs))"
  by (cases "int_root dr mn") (simp_all add: find_semiprimes_in_range_def bind_case_Inr)

lemma find_semiprimes_in_range_Inl:
  assumes "find_semiprimes_in_range dr mn mx count = Some (Inl e)"
  shows "e = OverflowError \<or> (e = TypeError \<and> mn < 0)"
proof (cases "int_root dr mn")
  case (Inl e')
  with assms have "e' = e" by (simp add: find_semiprimes_in_range_def)
  with Inl show ?thesis by (auto simp: int_root_def split: if_splits)
next
  case (Inr root)
  with assms have "next_prime dr root = Some (Inl e)
     \<or> (\<exists>p0. outer_loop dr mn mx count [] p0 = Some (Inl e))"
    by (auto simp: find_semiprimes_in_range_def bind_case_Inl)
  then show ?thesis using next_prime_Inl outer_loop_Inl by blast
qed

lemma find_semiprimes_in_range_halts:
  "\<exists>r. find_semiprimes_in_range dr mn mx count = Some r"
proof (cases "int_root dr mn")
  case (Inl e)
  then show ?thesis by (simp add: find_semiprimes_in_range_def)
next
  case (Inr root)
  obtain rp where rp: "next_prime dr root = Some rp" using next_prime_halts by blast
  show ?thesis
  proof (cases rp)
    case (Inl e)
    with rp Inr show ?thesis by (simp add: find_semiprimes_in_range_def)
  next
    case p0: (Inr p0)
    have "2 \<le> p0" using next_prime_Inr(1) [of dr root p0] rp p0 is_prime_True(1) by blast
    then have "0 < p0" by simp
    from outer_loop_halts [OF this] obtain r where "outer_loop dr mn mx count [] p0 = Some r"
      by blast
    with rp Inr p0 show ?thesis by (simp add: find_semiprimes_in_range_def)
  qed
qed

lemma prime_int_3: "prime_int 3"
  using is_prime_exact [of 3 floor_sqrt] is_prime_3 [of floor_sqrt]
  by (simp add: exact_limit_def)

lemma find_semiprimes_in_range_returns:
  assumes "prime_int P" and "P < exact_limit" and "0 \<le> mn" and "mn < P" and "mx < P"
  shows "\<exists>rs. find_semiprimes_in_range dr mn mx count = Some (Inr rs)"
proof -
  define Q where "Q = (if P \<le> 2 then 3 else P)"
  have Q: "prime_int Q" "2 < Q" "Q < exact_limit" "mn < Q" "mx < Q"
    using assms prime_int_3 by (auto simp: Q_def exact_limit_def)
  have root: "int_root dr mn = Inr (floor_sqrt mn)"
    using assms(3) Q(3,4) by (intro int_root_exact) simp_all
  have "floor_sqrt mn * floor_sqrt mn \<le> mn" "0 \<le> floor_sqrt mn"
    using floor_sqrt_bounds [of mn] assms(3) by simp_all
  then have "floor_sqrt mn \<le> mn"
    by (smt (verit) mult_left_mono mult_cancel_left1 mult_le_cancel_left1 zero_le_mult_iff)
  then have "floor_sqrt mn < Q" using Q(4) by simp
  from next_prime_returns [OF Q(1,2,3) this, of dr]
  obtain p0 where p0: "next_prime dr (floor_sqrt mn) = Some (Inr p0)" by blast
  have "2 \<le> p0" using next_prime_Inr(1) [OF p0] is_prime_True(1) by blast
  then have "0 < p0" by simp
  from outer_loop_returns [OF Q(1,2,3,5) assms(3) Q(4) this]
  obtain rs where "outer_loop dr mn mx count [] p0 = Some (Inr rs)" by blast
  then show ?thesis using root p0 by (auto simp: find_semiprimes_in_range_Inr)
qed

subsection \<open>Claims about the range enumerator\<close>

lemma find_semiprimes_in_range_4_digits:
  "find_semiprimes_in_range dr 1000 9999 5 =
     Some (Inr [(37, 29, 1073), (37, 31, 1147), (37, 37, 1369), (37, 41, 1517),
                (37, 43, 1591)])"
  by code_simp

lemma find_semiprimes_in_range_2_digits:
  "find_semiprimes_in_range dr 10 99 12 =
     Some (Inr [(5, 3, 15), (5, 5, 25), (5, 7, 35), (5, 11, 55), (5, 13, 65), (5, 17, 85),
                (5, 19, 95), (7, 3, 21), (7, 5, 35), (7, 7, 49), (7, 11, 77), (7, 13, 91)])"
  by code_simp

lemma find_semiprimes_in_range_first_3:
  "find_semiprimes_in_range dr 10 99 3 = Some (Inr [(5, 3, 15), (5, 5, 25), (5, 7, 35)])"
  by code_simp

lemma find_semiprimes_in_range_overflow:
  "find_semiprimes_in_range dr (2 ^ 1024) (2 ^ 1025) 1 = Some (Inl OverflowError)"
  by code_simp

lemma prime_int_10007: "prime_int 10007"
proof -
  have "is_prime floor_sqrt 10007 = Inr True" by code_simp
  moreover have "(10007::int) < exact_limit" by (simp add: exact_limit_def)
  ultimately show ?thesis using is_prime_exact [of 10007 floor_sqrt] by simp
qed

lemma floor_sqrt_2_1024: "floor_sqrt (2 ^ 1024) = 2 ^ 512"
  by (rule floor_sqrt_unique) simp_all

text \<open>
  Claim C2, as amended. For \<open>min_val \<ge> 1\<close>, any \<open>max_val\<close> and \<open>count \<ge> 1\<close> the call of
  the enumerator ends. It either returns a list of at most \<open>count\<close> triples
  \<open>(p, q, product)\<close>, each with \<open>p * q = product\<close>, \<open>min_val \<le> product \<le> max_val\<close> and a
  product that has as many decimal digits as \<open>min_val\<close>, or it raises
  \<^verbatim>\<open>OverflowError\<close>; it raises only when no prime below \<open>2^52\<close> is above both
  \<open>min_val\<close> and \<open>max_val\<close>. This holds for every \<open>double_root\<close>.
\<close>

theorem find_semiprimes_in_range_sound:
  assumes "1 \<le> min_val" and "1 \<le> count"
  shows "\<exists>r. find_semiprimes_in_range dr min_val max_val count = Some r
     \<and> (case r of
          Inr rs \<Rightarrow>
            int (length rs) \<le> count
            \<and> (\<forall>(p, q, product) \<in> set rs.
                  p * q = product \<and> min_val \<le> product \<and> product \<le> max_val
                  \<and> length (str_int product) = length (str_int min_val))
        | Inl e \<Rightarrow>
            e = OverflowError
            \<and> (\<forall>P. prime_int P \<and> min_val < P \<and> max_val < P \<longrightarrow> 2 ^ 52 \<le> P))"
proof -
  obtain r where r: "find_semiprimes_in_range dr min_val max_val count = Some r"
    using find_semiprimes_in_range_halts by blast
  show ?thesis
  proof (cases r)
    case (Inr rs)
    with r obtain p0 where "outer_loop dr min_val max_val count [] p0 = Some (Inr rs)"
      by (auto simp: find_semiprimes_in_range_Inr)
    from outer_loop_Inr [OF this] have "\<forall>t \<in> set rs. in_range_entry min_val max_val t"
      and "int (length rs) \<le> count"
      using assms(2) by auto
    then show ?thesis using r Inr by (auto simp: in_range_entry_def)
  next
    case (Inl e)
    with r have e: "find_semiprimes_in_range dr min_val max_val count = Some (Inl e)" by simp
    from find_semiprimes_in_range_Inl [OF e] assms(1) have "e = OverflowError" by auto
    moreover have "2 ^ 52 \<le> P" if P: "prime_int P \<and> min_val < P \<and> max_val < P" for P
    proof (rule ccontr)
      assume "\<not> 2 ^ 52 \<le> P"
      then have "P < exact_limit" by (simp add: exact_limit_def)
      moreover have "0 \<le> min_val" using assms(1) by simp
      ultimately obtain rs where
        "find_semiprimes_in_range dr min_val max_val count = Some (Inr rs)"
        using find_semiprimes_in_range_returns [of P min_val max_val dr count] P by blast
      with e show False by simp
    qed
    ultimately show ?thesis using r Inl by simp
  qed
qed

theorem find_semiprimes_in_range_sound_witness:
  "(1::int) \<le> 1000 \<and> (1::int) \<le> 5
   \<and> find_semiprimes_in_range floor_sqrt 1000 9999 5 =
       Some (Inr [(37, 29, 1073), (37, 31, 1147), (37, 37, 1369), (37, 41, 1517),
                  (37, 43, 1591)])
   \<and> (\<exists>rs. find_semiprimes_in_range floor_sqrt 1000 9999 5 = Some (Inr rs)
        \<and> int (length rs) \<le> 5
        \<and> (\<forall>(p, q, product) \<in> set rs.
              p * q = product \<and> 1000 \<le> product \<and> product \<le> 9999
              \<and> length (str_int product) = length (str_int 1000)))
   \<and> prime_int 10007 \<and> (1000::int) < 10007 \<and> (9999::int) < 10007
   \<and> (10007::int) < 2 ^ 52"
proof -
  have h1: "(1::int) \<le> 1000" and h2: "(1::int) \<le> 5" by simp_all
  from find_semiprimes_in_range_sound [OF h1 h2, of floor_sqrt 9999]
  have "\<exists>rs. find_semiprimes_in_range floor_sqrt 1000 9999 5 = Some (Inr rs)
        \<and> int (length rs) \<le> 5
        \<and> (\<forall>(p, q, product) \<in> set rs.
              p * q = product \<and> 1000 \<le> product \<and> product \<le> 9999
              \<and> length (str_int product) = length (str_int 1000))"
    by (simp add: find_semiprimes_in_range_4_digits)
  then show ?thesis using find_semiprimes_in_range_4_digits prime_int_10007 by simp
qed

text \<open>
  The claim as the specification states it promises a list for every \<open>min_val \<ge> 1\<close>. With
  \<open>min_val = 2^1024\<close> the conversion of \<open>min_val\<close> to a double overflows in
  \<^verbatim>\<open>int(min_val ** 0.5)\<close> and the call raises, on every platform.
\<close>

theorem find_semiprimes_in_range_sound_counterexample:
  "(1::int) \<le> 2 ^ 1024 \<and> (1::int) \<le> 1
   \<and> (\<forall>dr. find_semiprimes_in_range dr (2 ^ 1024) (2 ^ 1025) 1 = Some (Inl OverflowError))"
  using find_semiprimes_in_range_overflow by simp

text \<open>
  Claim C6, as amended. The first \<open>p\<close> the enumerator considers is \<open>next_prime root\<close>, where
  \<open>root\<close> is the value of \<^verbatim>\<open>int(min_val ** 0.5)\<close>, and its outer loop runs, from the
  empty result list and that \<open>p\<close>, exactly as long as fewer than \<open>count\<close> results are
  collected and \<open>p * p < max_val\<close>: a list is returned if and only if the root and the
  first \<open>p\<close> are returned and it is the list the loop with that guard leaves with. The
  root is the integer floor of the square root of \<open>min_val\<close> for \<open>0 \<le> min_val < 2^52\<close>, the
  platform's double root from there up to \<open>2^1024 - 2^970\<close>, and an exception, which the
  call raises, for every other \<open>min_val\<close>.
\<close>

theorem find_semiprimes_in_range_outer_loop:
  "(find_semiprimes_in_range dr min_val max_val count = Some (Inr rs) \<longleftrightarrow>
     (\<exists>root p0 p_end. int_root dr min_val = Inr root \<and> next_prime dr root = Some (Inr p0)
        \<and> while_run (\<lambda>(results, p). int (length results) < count \<and> p * p < max_val)
             (outer_body dr min_val max_val count) ([], p0) (rs, p_end)))
   \<and> (0 \<le> min_val \<and> min_val < 2 ^ 52 \<longrightarrow> int_root dr min_val = Inr (floor_sqrt min_val))
   \<and> (2 ^ 52 \<le> min_val \<and> min_val < 2 ^ 1024 - 2 ^ 970
        \<longrightarrow> int_root dr min_val = Inr (dr min_val))
   \<and> (min_val < 0 \<or> 2 ^ 1024 - 2 ^ 970 \<le> min_val
        \<longrightarrow> (\<exists>e. int_root dr min_val = Inl e
              \<and> find_semiprimes_in_range dr min_val max_val count = Some (Inl e)))"
proof (intro conjI impI)
  let ?run = "\<lambda>p0 p_end.
    while_run (\<lambda>(results, p). int (length results) < count \<and> p * p < max_val)
      (outer_body dr min_val max_val count) ([], p0) (rs, p_end)"
  show "find_semiprimes_in_range dr min_val max_val count = Some (Inr rs) \<longleftrightarrow>
     (\<exists>root p0 p_end. int_root dr min_val = Inr root \<and> next_prime dr root = Some (Inr p0)
        \<and> ?run p0 p_end)"
  proof
    assume "find_semiprimes_in_range dr min_val max_val count = Some (Inr rs)"
    then obtain root p0 where "int_root dr min_val = Inr root"
      "next_prime dr root = Some (Inr p0)"
      "outer_loop dr min_val max_val count [] p0 = Some (Inr rs)"
      by (auto simp: find_semiprimes_in_range_Inr)
    then show "\<exists>root p0 p_end. int_root dr min_val = Inr root
        \<and> next_prime dr root = Some (Inr p0) \<and> ?run p0 p_end"
      using outer_loop_while_run by blast
  next
    assume "\<exists>root p0 p_end. int_root dr min_val = Inr root
        \<and> next_prime dr root = Some (Inr p0) \<and> ?run p0 p_end"
    then obtain root p0 p_end where root: "int_root dr min_val = Inr root"
      and p0: "next_prime dr root = Some (Inr p0)" and w: "?run p0 p_end"
      by blast
    from while_run_outer_loop [OF w]
    have "outer_loop dr min_val max_val count [] p0 = Some (Inr rs)" by simp
    then show "find_semiprimes_in_range dr min_val max_val count = Some (Inr rs)"
      using root p0 by (auto simp: find_semiprimes_in_range_Inr)
  qed
next
  assume "0 \<le> min_val \<and> min_val < 2 ^ 52"
  then show "int_root dr min_val = Inr (floor_sqrt min_val)"
    by (intro int_root_exact) (simp_all add: exact_limit_def)
next
  assume "2 ^ 52 \<le> min_val \<and> min_val < 2 ^ 1024 - 2 ^ 970"
  then show "int_root dr min_val = Inr (dr min_val)"
    by (intro int_root_double) (simp_all add: exact_limit_def float_limit_def)
next
  assume a: "min_val < 0 \<or> 2 ^ 1024 - 2 ^ 970 \<le> min_val"
  have "\<exists>e. int_root dr min_val = Inl e"
  proof (cases "min_val < 0")
    case True
    then show ?thesis by (simp add: int_root_def)
  next
    case False
    with a have "float_limit \<le> min_val" by (simp add: float_limit_def)
    then show ?thesis by (simp add: int_root_overflow)
  qed
  then obtain e where "int_root dr min_val = Inl e" by blast
  then show "\<exists>e. int_root dr min_val = Inl e
      \<and> find_semiprimes_in_range dr min_val max_val count = Some (Inl e)"
    by (simp add: find_semiprimes_in_range_def)
qed

theorem find_semiprimes_in_range_outer_loop_witness:
  "find_semiprimes_in_range floor_sqrt 10 99 3 = Some (Inr [(5, 3, 15), (5, 5, 25), (5, 7, 35)])
   \<and> (\<exists>root p0 p_end. int_root floor_sqrt 10 = Inr root
        \<and> next_prime floor_sqrt root = Some (Inr p0)
        \<and> while_run (\<lambda>(results, p). int (length results) < 3 \<and> p * p < 99)
             (outer_body floor_sqrt 10 99 3) ([], p0)
             ([(5, 3, 15), (5, 5, 25), (5, 7, 35)], p_end))
   \<and> (0::int) \<le> 10 \<and> (10::int) < 2 ^ 52 \<and> int_root floor_sqrt 10 = Inr (floor_sqrt 10)
   \<and> (2::int) ^ 52 \<le> 2 ^ 52 \<and> (2::int) ^ 52 < 2 ^ 1024 - 2 ^ 970
   \<and> int_root floor_sqrt (2 ^ 52) = Inr (floor_sqrt (2 ^ 52))
   \<and> (2::int) ^ 1024 - 2 ^ 970 \<le> 2 ^ 1024
   \<and> (\<exists>e. int_root floor_sqrt (2 ^ 1024) = Inl e
         \<and> find_semiprimes_in_range floor_sqrt (2 ^ 1024) 99 3 = Some (Inl e))"
proof -
  note a = find_semiprimes_in_range_outer_loop
    [of floor_sqrt 10 99 3 "[(5, 3, 15), (5, 5, 25), (5, 7, 35)]"]
  note b = find_semiprimes_in_range_outer_loop [of floor_sqrt "2 ^ 52" 99 3 "[]"]
  note c = find_semiprimes_in_range_outer_loop [of floor_sqrt "2 ^ 1024" 99 3 "[]"]
  have "\<exists>root p0 p_end. int_root floor_sqrt 10 = Inr root
        \<and> next_prime floor_sqrt root = Some (Inr p0)
        \<and> while_run (\<lambda>(results, p). int (length results) < 3 \<and> p * p < 99)
             (outer_body floor_sqrt 10 99 3) ([], p0)
             ([(5, 3, 15), (5, 5, 25), (5, 7, 35)], p_end)"
    using a find_semiprimes_in_range_first_3 [of floor_sqrt] by blast
  moreover have "int_root floor_sqrt 10 = Inr (floor_sqrt 10)" using a by simp
  moreover have "int_root floor_sqrt (2 ^ 52) = Inr (floor_sqrt (2 ^ 52))" using b by simp
  moreover have "\<exists>e. int_root floor_sqrt (2 ^ 1024) = Inl e
         \<and> find_semiprimes_in_range floor_sqrt (2 ^ 1024) 99 3 = Some (Inl e)"
    using c by simp
  ultimately show ?thesis using find_semiprimes_in_range_first_3 [of floor_sqrt] by simp
qed

text \<open>
  The claim as the specification states it names \<open>next_prime (floor (sqrt min_val))\<close> as the
  first \<open>p\<close> for every \<open>min_val\<close>. The integer floor of the square root of \<open>2^1024\<close> is
  \<open>2^512\<close>, but \<^verbatim>\<open>int(min_val ** 0.5)\<close> raises \<^verbatim>\<open>OverflowError\<close> there, no \<open>p\<close> is
  considered and the outer loop is not reached.
\<close>

theorem find_semiprimes_in_range_outer_loop_counterexample:
  "floor_sqrt (2 ^ 1024) = 2 ^ 512
   \<and> (\<forall>dr. int_root dr (2 ^ 1024) = Inl OverflowError
         \<and> find_semiprimes_in_range dr (2 ^ 1024) (2 ^ 1025) 1 = Some (Inl OverflowError))"
proof -
  have "int_root dr (2 ^ 1024) = Inl OverflowError" for dr
    by (intro int_root_overflow) (simp add: float_limit_def)
  then show ?thesis using floor_sqrt_2_1024 find_semiprimes_in_range_overflow by simp
qed

text \<open>
  Claim C7. The returned list is in the order of appending: by increasing \<open>p\<close> and, for
  one \<open>p\<close>, by strictly increasing \<open>q\<close>. Equal products that come from different pairs are
  all kept: between 10 and 99 the product 35 is returned both as \<open>5 * 7\<close> and as \<open>7 * 5\<close>.
  This holds for every \<open>double_root\<close>.
\<close>

theorem find_semiprimes_in_range_order:
  "(find_semiprimes_in_range dr min_val max_val count = Some (Inr rs)
      \<longrightarrow> sorted_wrt appended_before rs)
   \<and> (\<exists>rs'. find_semiprimes_in_range dr 10 99 12 = Some (Inr rs')
         \<and> (5, 7, 35) \<in> set rs' \<and> (7, 5, 35) \<in> set rs')"
proof (intro conjI impI)
  assume "find_semiprimes_in_range dr min_val max_val count = Some (Inr rs)"
  then obtain p0 where "outer_loop dr min_val max_val count [] p0 = Some (Inr rs)"
    by (auto simp: find_semiprimes_in_range_Inr)
  from outer_loop_Inr [OF this] show "sorted_wrt appended_before rs" by auto
next
  show "\<exists>rs'. find_semiprimes_in_range dr 10 99 12 = Some (Inr rs')
         \<and> (5, 7, 35) \<in> set rs' \<and> (7, 5, 35) \<in> set rs'"
    by (simp add: find_semiprimes_in_range_2_digits)
qed

theorem find_semiprimes_in_range_order_witness:
  "find_semiprimes_in_range floor_sqrt 10 99 12 =
     Some (Inr [(5, 3, 15), (5, 5, 25), (5, 7, 35), (5, 11, 55), (5, 13, 65), (5, 17, 85),
                (5, 19, 95), (7, 3, 21), (7, 5, 35), (7, 7, 49), (7, 11, 77), (7, 13, 91)])
   \<and> sorted_wrt appended_before
       [(5, 3, 15), (5, 5, 25), (5, 7, 35), (5, 11, 55), (5, 13, 65), (5, 17, 85),
        (5, 19, 95), (7, 3, 21), (7, 5, 35), (7, 7, 49), (7, 11, 77), (7, 13, 91)]"
  using find_semiprimes_in_range_order [of floor_sqrt 10 99 12]
    find_semiprimes_in_range_2_digits [of floor_sqrt]
  by blast

subsection \<open>The curated report\<close>

lemma str_digits_first:
  "0 \<le> n \<Longrightarrow> \<exists>c cs. str_digits n = c # cs \<and> c \<noteq> CHR ''E''"
proof (induction n rule: str_digits.induct)
  case (1 n)
  show ?case
  proof (cases "n < 10")
    case True
    then have "take_bit 8 (48 + n) = 48 + n"
      using "1.prems" by (simp add: take_bit_eq_mod)
    then have "char_of (48 + n) \<noteq> CHR ''E''"
      using True "1.prems" by (simp add: char_of_eq_iff)
    then show ?thesis using True by (subst str_digits.simps) simp
  next
    case False
    then have "0 \<le> n div 10" by simp
    from "1.IH" [OF False this] obtain c cs where "str_digits (n div 10) = c # cs" "c \<noteq> CHR ''E''"
      by blast
    then show ?thesis using False by (subst str_digits.simps) simp
  qed
qed

lemma str_int_first: "\<exists>c cs. str_int i = c # cs \<and> c \<noteq> CHR ''E''"
proof (cases "i < 0")
  case True
  then show ?thesis by (simp add: str_int_def)
next
  case False
  then show ?thesis using str_digits_first [of i] by (simp add: str_int_def)
qed

lemma product_line_no_error: "take 9 (product_line d e) \<noteq> ''  ERROR: ''"
proof -
  obtain p q n where e: "e = (p, q, n)" by (cases e)
  obtain c cs where "str_int n = c # cs" "c \<noteq> CHR ''E''" using str_int_first by blast
  then show ?thesis by (simp add: product_line_def e)
qed

lemma error_lines_prefix:
  "take 9 (factor_error_line e) = ''  ERROR: ''" "take 9 (digits_error_line d e) = ''  ERROR: ''"
  by (simp_all add: factor_error_line_def digits_error_line_def split: prod.split)

lemma sum_list_insort_key_nat:
  "sum_list (map f (insort_key k x xs)) = f x + (sum_list (map f xs) :: nat)"
  by (induction xs) simp_all

lemma sum_list_sort_key_nat:
  "sum_list (map f (sort_key k xs)) = (sum_list (map f xs) :: nat)"
  by (induction xs) (simp_all add: sum_list_insort_key_nat)

lemma length_report_group: "length (report_group d es) = length es + 2"
  by (simp add: report_group_def)

lemma length_report_table:
  "length (report_table tbl) = (\<Sum>(d, es) \<leftarrow> tbl. length es + 2)"
proof -
  have "length (report_table tbl)
      = sum_list (map (\<lambda>g. length (snd g) + 2) (sort_key fst tbl))"
    by (simp add: report_table_def length_concat comp_def case_prod_unfold length_report_group)
  also have "\<dots> = sum_list (map (\<lambda>g. length (snd g) + 2) tbl)"
    by (rule sum_list_sort_key_nat)
  finally show ?thesis by (simp add: case_prod_unfold)
qed

lemma entry_line_in_report:
  assumes "(d, es) \<in> set tbl" and "e \<in> set es"
  shows "entry_line d e \<in> set (report tbl)"
proof -
  have "(d, es) \<in> set (sort_key fst tbl)" using assms(1) by simp
  moreover have "entry_line d e \<in> set (report_group d es)"
    using assms(2) by (simp add: report_group_def)
  ultimately have "entry_line d e \<in> set (report_table tbl)"
    unfolding report_table_def by (auto intro!: bexI [of _ "(d, es)"])
  then show ?thesis by (simp add: report_def)
qed

text \<open>
  Claim C9. Every entry \<open>(p, q, n)\<close> of every digit group \<open>d\<close> of the table gets its line
  in the report. The line is the product line exactly when \<open>p * q = n\<close> and \<open>n\<close> has \<open>d\<close>
  decimal digits; otherwise it is one of the two error lines, which start with
  \<open>ERROR:\<close> as no product line does. No entry stops the report: it has one line for
  every entry, two more for every group, and the ten lines around the table.
\<close>

theorem report_validates_entries:
  assumes "(d, es) \<in> set tbl" and "(p, q, n) \<in> set es"
  shows "entry_line d (p, q, n) \<in> set (report tbl)
    \<and> (entry_line d (p, q, n) = product_line d (p, q, n)
         \<longleftrightarrow> p * q = n \<and> int (length (str_int n)) = d)
    \<and> (p * q \<noteq> n \<longrightarrow> entry_line d (p, q, n) = factor_error_line (p, q, n))
    \<and> (p * q = n \<and> int (length (str_int n)) \<noteq> d
         \<longrightarrow> entry_line d (p, q, n) = digits_error_line d (p, q, n))
    \<and> take 9 (factor_error_line (p, q, n)) = ''  ERROR: ''
    \<and> take 9 (digits_error_line d (p, q, n)) = ''  ERROR: ''
    \<and> take 9 (product_line d (p, q, n)) \<noteq> ''  ERROR: ''
    \<and> length (report tbl) = 10 + (\<Sum>(d, es) \<leftarrow> tbl. length es + 2)"
proof -
  let ?e = "(p, q, n)"
  have 1: "entry_line d ?e \<in> set (report tbl)" using assms by (rule entry_line_in_report)
  have 3: "p * q \<noteq> n \<longrightarrow> entry_line d ?e = factor_error_line ?e"
    by (simp add: entry_line_def)
  have 4: "p * q = n \<and> int (length (str_int n)) \<noteq> d \<longrightarrow> entry_line d ?e = digits_error_line d ?e"
    by (simp add: entry_line_def)
  have 5: "take 9 (factor_error_line ?e) = ''  ERROR: ''"
    and 6: "take 9 (digits_error_line d ?e) = ''  ERROR: ''"
    by (rule error_lines_prefix)+
  have 7: "take 9 (product_line d ?e) \<noteq> ''  ERROR: ''" by (rule product_line_no_error)
  have 2: "entry_line d ?e = product_line d ?e \<longleftrightarrow> p * q = n \<and> int (length (str_int n)) = d"
  proof
    assume eq: "entry_line d ?e = product_line d ?e"
    show "p * q = n \<and> int (length (str_int n)) = d"
    proof (rule ccontr)
      assume "\<not> (p * q = n \<and> int (length (str_int n)) = d)"
      then have "entry_line d ?e = factor_error_line ?e \<or> entry_line d ?e = digits_error_line d ?e"
        using 3 4 by blast
      then have "take 9 (entry_line d ?e) = ''  ERROR: ''" using 5 6 by metis
      with eq 7 show False by simp
    qed
  next
    assume "p * q = n \<and> int (length (str_int n)) = d"
    then show "entry_line d ?e = product_line d ?e" by (simp add: entry_line_def)
  qed
  have 8: "length (report tbl) = 10 + (\<Sum>(d, es) \<leftarrow> tbl. length es + 2)"
    by (simp add: report_def length_report_table)
  from 1 2 3 4 5 6 7 8 show ?thesis by blast
qed

lemma entry_line_10_digits_first:
  "entry_line 10 (31627, 31657, 1001163139)
     = ''  ERROR: 31627 '' @ times_sign @ '' 31657 = 1001215939, not 1001163139''"
  by code_simp

lemma entry_line_10_digits_second:
  "entry_line 10 (100003, 99991, 9999399973)
     = ''  9999399973 = 100003 '' @ times_sign @ '' 99991''"
  by code_simp

theorem report_validates_entries_witness:
  "(10, [(31627, 31657, 1001163139), (100003, 99991, 9999399973),
         (158233, 189389, 29968661137)]) \<in> set test_numbers
   \<and> (31627, 31657, 1001163139) \<in> set ([(31627, 31657, 1001163139),
         (100003, 99991, 9999399973), (158233, 189389, 29968661137)] :: triple list)
   \<and> (31627 :: int) * 31657 \<noteq> 1001163139
   \<and> entry_line 10 (31627, 31657, 1001163139) \<in> set (report test_numbers)
   \<and> entry_line 10 (31627, 31657, 1001163139) = factor_error_line (31627, 31657, 1001163139)
   \<and> entry_line 10 (31627, 31657, 1001163139)
       = ''  ERROR: 31627 '' @ times_sign @ '' 31657 = 1001215939, not 1001163139''
   \<and> length (report test_numbers) = 32"
proof -
  let ?es = "[(31627, 31657, 1001163139), (100003, 99991, 9999399973),
         (158233, 189389, 29968661137)] :: triple list"
  have h1: "(10, ?es) \<in> set test_numbers" by (simp add: test_numbers_def)
  have h2: "(31627, 31657, 1001163139) \<in> set ?es" by simp
  have ne: "(31627 :: int) * 31657 \<noteq> 1001163139" by simp
  have len: "(\<Sum>(d, es) \<leftarrow> test_numbers. length es + 2) = 22" by (simp add: test_numbers_def)
  from report_validates_entries [OF h1 h2]
  have c1: "entry_line 10 (31627, 31657, 1001163139) \<in> set (report test_numbers)"
    and c3: "(31627 :: int) * 31657 \<noteq> 1001163139 \<longrightarrow>
      entry_line 10 (31627, 31657, 1001163139) = factor_error_line (31627, 31657, 1001163139)"
    and c8: "length (report test_numbers) = 10 + (\<Sum>(d, es) \<leftarrow> test_numbers. length es + 2)"
    by blast+
  from c3 ne have c3': "entry_line 10 (31627, 31657, 1001163139)
      = factor_error_line (31627, 31657, 1001163139)" by blast
  from c8 have c8': "length (report test_numbers) = 32" by (simp only: len)
  show ?thesis
    by (intro conjI h1 h2 ne c1 c3' c8' entry_line_10_digits_first)
qed

subsection \<open>Further properties of the searches and the constructors\<close>

text \<open>
  For \<open>n \<ge> 2\<close> with a prime above it and below \<open>2^52\<close>, the forward search returns the least
  prime above \<open>n\<close>.
\<close>

lemma next_prime_least_above:
  assumes "2 \<le> n" and "prime_int P" and "n < P" and "P < 2 ^ 52"
  shows "\<exists>p. next_prime dr n = Some (Inr p) \<and> prime_int p \<and> n < p
     \<and> (\<forall>k. n < k \<and> k < p \<longrightarrow> \<not> prime_int k)"
proof -
  have P: "P < exact_limit" "2 < P" using assms by (simp_all add: exact_limit_def)
  from next_prime_returns [OF assms(2) P(2) P(1) assms(3), of dr]
  obtain p where p: "next_prime dr n = Some (Inr p)" "p \<le> P" by blast
  then have "p \<le> exact_limit" using P(1) by simp
  from next_prime_minimal [OF p(1) assms(1) this] p(1) show ?thesis by blast
qed

text \<open>
  For \<open>3 < n \<le> 2^52\<close> the backward search returns the largest prime below \<open>n\<close>.
\<close>

lemma prev_prime_greatest_below:
  assumes "3 < n" and "n \<le> 2 ^ 52"
  shows "\<exists>p. prev_prime dr n = Some (Inr p) \<and> prime_int p \<and> p < n
     \<and> (\<forall>k. p < k \<and> k < n \<longrightarrow> \<not> prime_int k)"
proof -
  have n: "n \<le> exact_limit" using assms(2) by (simp add: exact_limit_def)
  then have "n \<le> float_limit" using limits(2) by simp
  from prev_prime_returns [OF this, of dr]
  obtain p where p: "prev_prime dr n = Some (Inr p)" by blast
  from prev_prime_maximal [OF p assms(1) n] p show ?thesis by blast
qed

text \<open>
  Both searches raise on numbers that no double holds; the forward search never runs
  forever either, as its candidates reach such a number if nothing stops it before.
\<close>

lemma prev_prime_overflow: "prev_prime dr (10 ^ 400) = Some (Inl OverflowError)"
  by code_simp

lemma next_prime_overflow: "next_prime dr (10 ^ 400) = Some (Inl OverflowError)"
  by code_simp

lemma next_prime_ends:
  "\<exists>r. next_prime dr n = Some r \<and>
     (case r of Inr p \<Rightarrow> n < p \<and> odd p \<and> is_prime dr p = Inr True
      | Inl e \<Rightarrow> e = OverflowError)"
proof -
  obtain r where r: "next_prime dr n = Some r" using next_prime_halts by blast
  show ?thesis
  proof (cases r)
    case (Inl e)
    with r next_prime_Inl [of dr n e] show ?thesis by simp
  next
    case (Inr p)
    with r next_prime_Inr(1,2,3) [of dr n p] show ?thesis by simp
  qed
qed

text \<open>
  A negative \<open>min_val\<close> makes the enumerator raise, before any search.
\<close>

lemma find_semiprimes_in_range_negative:
  "min_val < 0 \<Longrightarrow>
     find_semiprimes_in_range dr min_val max_val count =
       Some (Inl (if min_val \<le> 2 ^ 970 - 2 ^ 1024 then OverflowError else TypeError))"
  by (simp add: find_semiprimes_in_range_def int_root_def float_limit_def)

text \<open>
  With \<open>target_digits = 0\<close> the constructor never returns: every product has at least one
  character, so the shrink loop is never left.
\<close>

lemma shrink_loop_0_never_returns:
  "shrink_loop dr d p q n = Some r \<Longrightarrow> q \<le> float_limit \<Longrightarrow> d \<noteq> 0"
proof (induction dr d p q n r rule: shrink_loop.raw_induct [rotated 1, consumes 1, case_names step])
  case (step f dr d p q n r)
  show ?case
  proof
    assume d: "d = 0"
    obtain c cs where "str_int n = c # cs" using str_int_first by blast
    then have len: "length (str_int n) > d" using d by simp
    obtain q1 where q1: "prev_prime dr q = Some (Inr q1)"
      using prev_prime_returns [OF step(3)] by blast
    with step(2) len have "f dr d p q1 (p * q1) = Some r" by simp
    moreover have "q1 \<le> float_limit" using prev_prime_Inr(1) [OF q1] step(3) by simp
    ultimately show False using step(1) d by blast
  qed
qed

lemma generate_semiprime_0_diverges: "generate_semiprime dr 0 = None"
proof -
  have p: "next_prime dr 1 = Some (Inr 3)" by code_simp
  have q: "next_prime dr 0 = Some (Inr 3)" by code_simp
  have "(3::int) \<le> float_limit" by (simp add: float_limit_def)
  then have "shrink_loop dr 0 3 3 9 = None"
    using shrink_loop_0_never_returns [of dr 0 3 3 9] by (cases "shrink_loop dr 0 3 3 9") auto
  then show ?thesis using p q by (simp add: generate_semiprime_def)
qed

lemma str_digits_length:
  "0 < n \<Longrightarrow> 10 ^ (length (str_digits n) - 1) \<le> n \<and> n < 10 ^ length (str_digits n)"
proof (induction n rule: str_digits.induct)
  case (1 n)
  show ?case
  proof (cases "n < 10")
    case True
    then show ?thesis using "1.prems" by (subst (1 2) str_digits.simps) simp
  next
    case False
    let ?m = "n div 10"
    let ?L = "length (str_digits ?m)"
    have m: "0 < ?m" using False by simp
    from "1.IH" [OF False m] have ih: "10 ^ (?L - 1) \<le> ?m" "?m < 10 ^ ?L" by simp_all
    have L: "0 < ?L"
    proof (rule ccontr)
      assume "\<not> 0 < ?L"
      then have "?L = 0" by simp
      with ih(2) m show False by simp
    qed
    have len: "length (str_digits n) = Suc ?L"
      using False by (subst str_digits.simps) simp
    have "(10::int) ^ ?L = 10 * 10 ^ (?L - 1)" using L by (cases ?L) simp_all
    also have "\<dots> \<le> 10 * ?m" using ih(1) by simp
    also have "\<dots> \<le> n" by presburger
    finally have lo: "10 ^ ?L \<le> n" .
    have "?m + 1 \<le> 10 ^ ?L" using ih(2) by simp
    then have "10 * (?m + 1) \<le> 10 * 10 ^ ?L" by simp
    moreover have "n < 10 * (?m + 1)" by presburger
    ultimately have hi: "n < 10 * 10 ^ ?L" by linarith
    show ?thesis using lo hi by (simp add: len)
  qed
qed

text \<open>
  \<^verbatim>\<open>len(str(n))\<close> of a positive integer is its number of decimal digits.
\<close>

lemma str_int_length_digits:
  "0 < n \<Longrightarrow> 10 ^ (length (str_int n) - 1) \<le> n \<and> n < 10 ^ length (str_int n)"
  using str_digits_length [of n] by (simp add: str_int_def)

subsection \<open>The target-digit constructor on 2 to 15 digits\<close>

text \<open>
  The runs of \<open>generate_semiprime\<close> for 2 to 15 digits are traced step by step: every
  prime the searches stop at is accepted by the oracle, and every candidate they pass is
  rejected by it, as an odd divisor shows.
\<close>

lemma not_is_prime_dvd:
  "1 < k \<Longrightarrow> k < n \<Longrightarrow> k dvd n \<Longrightarrow> n < 2 ^ 52 \<Longrightarrow> is_prime dr n = Inr False"
proof -
  assume k: "1 < k" "k < n" "k dvd n" and n: "n < 2 ^ 52"
  have "\<not> prime_int n" using k by (auto simp: prime_int_def)
  moreover have "n < exact_limit" using n by (simp add: exact_limit_def)
  ultimately show ?thesis using is_prime_exact [of n dr] by simp
qed

lemma is_prime_prime_int: "is_prime dr n = Inr True \<Longrightarrow> n < 2 ^ 52 \<Longrightarrow> prime_int n"
  using is_prime_exact [of n dr] by (simp add: exact_limit_def)

lemma next_prime_loop_step:
  "is_prime dr c = Inr False \<Longrightarrow> next_prime_loop dr c = next_prime_loop dr (c + 2)"
  by (subst next_prime_loop.simps) simp

lemma next_prime_loop_stop: "is_prime dr c = Inr True \<Longrightarrow> next_prime_loop dr c = Some (Inr c)"
  by (subst next_prime_loop.simps) simp

lemma prev_prime_loop_step:
  "2 < c \<Longrightarrow> is_prime dr c = Inr False \<Longrightarrow> prev_prime_loop dr c = prev_prime_loop dr (c - 2)"
  by (subst prev_prime_loop.simps) simp

lemma prev_prime_loop_stop: "is_prime dr c = Inr True \<Longrightarrow> prev_prime_loop dr c = Some (Inr c)"
  by (subst prev_prime_loop.simps) simp

lemma is_prime_7: "is_prime dr 7 = Inr True"
  by code_simp

lemma is_prime_11: "is_prime dr 11 = Inr True"
  by code_simp

lemma is_prime_89: "is_prime dr 89 = Inr True"
  by code_simp

lemma is_prime_97: "is_prime dr 97 = Inr True"
  by code_simp

lemma is_prime_101: "is_prime dr 101 = Inr True"
  by code_simp

lemma is_prime_983: "is_prime dr 983 = Inr True"
  by code_simp

lemma is_prime_991: "is_prime dr 991 = Inr True"
  by code_simp

lemma is_prime_997: "is_prime dr 997 = Inr True"
  by code_simp

lemma is_prime_1009: "is_prime dr 1009 = Inr True"
  by code_simp

lemma is_prime_9907: "is_prime dr 9907 = Inr True"
  by code_simp

lemma is_prime_9923: "is_prime dr 9923 = Inr True"
  by code_simp

lemma is_prime_9973: "is_prime dr 9973 = Inr True"
  by code_simp

lemma is_prime_10007: "is_prime dr 10007 = Inr True"
  by code_simp

lemma is_prime_99929: "is_prime dr 99929 = Inr True"
  by code_simp

lemma is_prime_99961: "is_prime dr 99961 = Inr True"
  by code_simp

lemma is_prime_99991: "is_prime dr 99991 = Inr True"
  by code_simp

lemma is_prime_100003: "is_prime dr 100003 = Inr True"
  by code_simp

lemma is_prime_999961: "is_prime dr 999961 = Inr True"
  by code_simp

lemma is_prime_999979: "is_prime dr 999979 = Inr True"
  by code_simp

lemma is_prime_999983: "is_prime dr 999983 = Inr True"
  by code_simp

lemma is_prime_1000003: "is_prime dr 1000003 = Inr True"
  by code_simp

lemma is_prime_9999943: "is_prime dr 9999943 = Inr True"
  by code_simp

lemma is_prime_9999971: "is_prime dr 9999971 = Inr True"
  by code_simp

lemma is_prime_9999973: "is_prime dr 9999973 = Inr True"
  by code_simp

lemma is_prime_9999991: "is_prime dr 9999991 = Inr True"
  by code_simp

lemma is_prime_10000019: "is_prime dr 10000019 = Inr True"
  by code_simp

lemma is_prime_99999787: "is_prime dr 99999787 = Inr True"
  by code_simp

lemma is_prime_99999821: "is_prime dr 99999821 = Inr True"
  by code_simp

lemma next_prime_10: "next_prime dr 10 = Some (Inr 11)"
  by (simp add:
      next_prime_def next_prime_loop_step next_prime_loop_stop is_prime_11)

lemma next_prime_9: "next_prime dr 9 = Some (Inr 11)"
  by (simp add:
      next_prime_def next_prime_loop_step next_prime_loop_stop is_prime_11)

lemma prev_prime_11: "prev_prime dr 11 = Some (Inr 7)"
  by (simp add:
      prev_prime_def prev_prime_loop_step prev_prime_loop_stop is_prime_7
      not_is_prime_dvd [of 3 9])

lemma next_prime_90: "next_prime dr 90 = Some (Inr 97)"
  by (simp add:
      next_prime_def next_prime_loop_step next_prime_loop_stop is_prime_97
      not_is_prime_dvd [of 7 91] not_is_prime_dvd [of 3 93] not_is_prime_dvd [of 5 95])

lemma prev_prime_97: "prev_prime dr 97 = Some (Inr 89)"
  by (simp add:
      prev_prime_def prev_prime_loop_step prev_prime_loop_stop is_prime_89
      not_is_prime_dvd [of 5 95] not_is_prime_dvd [of 3 93] not_is_prime_dvd [of 7 91])

lemma next_prime_100: "next_prime dr 100 = Some (Inr 101)"
  by (simp add:
      next_prime_def next_prime_loop_step next_prime_loop_stop is_prime_101)

lemma next_prime_99: "next_prime dr 99 = Some (Inr 101)"
  by (simp add:
      next_prime_def next_prime_loop_step next_prime_loop_stop is_prime_101)

lemma prev_prime_101: "prev_prime dr 101 = Some (Inr 97)"
  by (simp add:
      prev_prime_def prev_prime_loop_step prev_prime_loop_stop is_prime_97
      not_is_prime_dvd [of 3 99])

lemma next_prime_990: "next_prime dr 990 = Some (Inr 991)"
  by (simp add:
      next_prime_def next_prime_loop_step next_prime_loop_stop is_prime_991)

lemma prev_prime_991: "prev_prime dr 991 = Some (Inr 983)"
  by (simp add:
      prev_prime_def prev_prime_loop_step prev_prime_loop_stop is_prime_983
      not_is_prime_dvd [of 23 989] not_is_prime_dvd [of 3 987] not_is_prime_dvd [of 5 985])

lemma next_prime_1000: "next_prime dr 1000 = Some (Inr 1009)"
  by (simp add:
      next_prime_def next_prime_loop_step next_prime_loop_stop is_prime_1009
      not_is_prime_dvd [of 7 1001] not_is_prime_dvd [of 17 1003] not_is_prime_dvd [of 3 1005]
      not_is_prime_dvd [of 19 1007])

lemma next_prime_991: "next_prime dr 991 = Some (Inr 997)"
  by (simp add:
      next_prime_def next_prime_loop_step next_prime_loop_stop is_prime_997
      not_is_prime_dvd [of 3 993] not_is_prime_dvd [of 5 995])

lemma prev_prime_997: "prev_prime dr 997 = Some (Inr 991)"
  by (simp add:
      prev_prime_def prev_prime_loop_step prev_prime_loop_stop is_prime_991
      not_is_prime_dvd [of 5 995] not_is_prime_dvd [of 3 993])

lemma next_prime_9910: "next_prime dr 9910 = Some (Inr 9923)"
  by (simp add:
      next_prime_def next_prime_loop_step next_prime_loop_stop is_prime_9923
      not_is_prime_dvd [of 11 9911] not_is_prime_dvd [of 23 9913] not_is_prime_dvd [of 3 9915]
      not_is_prime_dvd [of 47 9917] not_is_prime_dvd [of 7 9919] not_is_prime_dvd [of 3 9921])

lemma prev_prime_9923: "prev_prime dr 9923 = Some (Inr 9907)"
  by (simp add:
      prev_prime_def prev_prime_loop_step prev_prime_loop_stop is_prime_9907
      not_is_prime_dvd [of 3 9921] not_is_prime_dvd [of 7 9919] not_is_prime_dvd [of 47 9917]
      not_is_prime_dvd [of 3 9915] not_is_prime_dvd [of 23 9913] not_is_prime_dvd [of 11 9911]
      not_is_prime_dvd [of 3 9909])

lemma next_prime_10000: "next_prime dr 10000 = Some (Inr 10007)"
  by (simp add:
      next_prime_def next_prime_loop_step next_prime_loop_stop is_prime_10007
      not_is_prime_dvd [of 73 10001] not_is_prime_dvd [of 7 10003]
      not_is_prime_dvd [of 3 10005])

lemma next_prime_9993: "next_prime dr 9993 = Some (Inr 10007)"
  by (simp add:
      next_prime_def next_prime_loop_step next_prime_loop_stop is_prime_10007
      not_is_prime_dvd [of 5 9995] not_is_prime_dvd [of 13 9997] not_is_prime_dvd [of 3 9999]
      not_is_prime_dvd [of 73 10001] not_is_prime_dvd [of 7 10003]
      not_is_prime_dvd [of 3 10005])

lemma prev_prime_10007: "prev_prime dr 10007 = Some (Inr 9973)"
  by (simp add:
      prev_prime_def prev_prime_loop_step prev_prime_loop_stop is_prime_9973
      not_is_prime_dvd [of 3 10005] not_is_prime_dvd [of 7 10003]
      not_is_prime_dvd [of 73 10001] not_is_prime_dvd [of 3 9999] not_is_prime_dvd [of 13 9997]
      not_is_prime_dvd [of 5 9995] not_is_prime_dvd [of 3 9993] not_is_prime_dvd [of 97 9991]
      not_is_prime_dvd [of 7 9989] not_is_prime_dvd [of 3 9987] not_is_prime_dvd [of 5 9985]
      not_is_prime_dvd [of 67 9983] not_is_prime_dvd [of 3 9981] not_is_prime_dvd [of 17 9979]
      not_is_prime_dvd [of 11 9977] not_is_prime_dvd [of 3 9975])

lemma next_prime_99930: "next_prime dr 99930 = Some (Inr 99961)"
  by (simp add:
      next_prime_def next_prime_loop_step next_prime_loop_stop is_prime_99961
      not_is_prime_dvd [of 13 99931] not_is_prime_dvd [of 3 99933]
      not_is_prime_dvd [of 5 99935] not_is_prime_dvd [of 37 99937]
      not_is_prime_dvd [of 3 99939] not_is_prime_dvd [of 139 99941]
      not_is_prime_dvd [of 17 99943] not_is_prime_dvd [of 3 99945]
      not_is_prime_dvd [of 89 99947] not_is_prime_dvd [of 127 99949]
      not_is_prime_dvd [of 3 99951] not_is_prime_dvd [of 7 99953] not_is_prime_dvd [of 5 99955]
      not_is_prime_dvd [of 3 99957] not_is_prime_dvd [of 19 99959])

lemma prev_prime_99961: "prev_prime dr 99961 = Some (Inr 99929)"
  by (simp add:
      prev_prime_def prev_prime_loop_step prev_prime_loop_stop is_prime_99929
      not_is_prime_dvd [of 19 99959] not_is_prime_dvd [of 3 99957]
      not_is_prime_dvd [of 5 99955] not_is_prime_dvd [of 7 99953] not_is_prime_dvd [of 3 99951]
      not_is_prime_dvd [of 127 99949] not_is_prime_dvd [of 89 99947]
      not_is_prime_dvd [of 3 99945] not_is_prime_dvd [of 17 99943]
      not_is_prime_dvd [of 139 99941] not_is_prime_dvd [of 3 99939]
      not_is_prime_dvd [of 37 99937] not_is_prime_dvd [of 5 99935]
      not_is_prime_dvd [of 3 99933] not_is_prime_dvd [of 13 99931])

lemma next_prime_100000: "next_prime dr 100000 = Some (Inr 100003)"
  by (simp add:
      next_prime_def next_prime_loop_step next_prime_loop_stop is_prime_100003
      not_is_prime_dvd [of 11 100001])

lemma next_prime_99997: "next_prime dr 99997 = Some (Inr 100003)"
  by (simp add:
      next_prime_def next_prime_loop_step next_prime_loop_stop is_prime_100003
      not_is_prime_dvd [of 3 99999] not_is_prime_dvd [of 11 100001])

lemma prev_prime_100003: "prev_prime dr 100003 = Some (Inr 99991)"
  by (simp add:
      prev_prime_def prev_prime_loop_step prev_prime_loop_stop is_prime_99991
      not_is_prime_dvd [of 11 100001] not_is_prime_dvd [of 3 99999]
      not_is_prime_dvd [of 19 99997] not_is_prime_dvd [of 5 99995]
      not_is_prime_dvd [of 3 99993])

lemma next_prime_999970: "next_prime dr 999970 = Some (Inr 999979)"
  by (simp add:
      next_prime_def next_prime_loop_step next_prime_loop_stop is_prime_999979
      not_is_prime_dvd [of 7 999971] not_is_prime_dvd [of 13 999973]
      not_is_prime_dvd [of 3 999975] not_is_prime_dvd [of 11 999977])

lemma prev_prime_999979: "prev_prime dr 999979 = Some (Inr 999961)"
  by (simp add:
      prev_prime_def prev_prime_loop_step prev_prime_loop_stop is_prime_999961
      not_is_prime_dvd [of 11 999977] not_is_prime_dvd [of 3 999975]
      not_is_prime_dvd [of 13 999973] not_is_prime_dvd [of 7 999971]
      not_is_prime_dvd [of 3 999969] not_is_prime_dvd [of 31 999967]
      not_is_prime_dvd [of 5 999965] not_is_prime_dvd [of 3 999963])

lemma next_prime_1000000: "next_prime dr 1000000 = Some (Inr 1000003)"
  by (simp add:
      next_prime_def next_prime_loop_step next_prime_loop_stop is_prime_1000003
      not_is_prime_dvd [of 101 1000001])

lemma next_prime_999997: "next_prime dr 999997 = Some (Inr 1000003)"
  by (simp add:
      next_prime_def next_prime_loop_step next_prime_loop_stop is_prime_1000003
      not_is_prime_dvd [of 3 999999] not_is_prime_dvd [of 101 1000001])

lemma prev_prime_1000003: "prev_prime dr 1000003 = Some (Inr 999983)"
  by (simp add:
      prev_prime_def prev_prime_loop_step prev_prime_loop_stop is_prime_999983
      not_is_prime_dvd [of 101 1000001] not_is_prime_dvd [of 3 999999]
      not_is_prime_dvd [of 757 999997] not_is_prime_dvd [of 5 999995]
      not_is_prime_dvd [of 3 999993] not_is_prime_dvd [of 17 999991]
      not_is_prime_dvd [of 19 999989] not_is_prime_dvd [of 3 999987]
      not_is_prime_dvd [of 5 999985])

lemma next_prime_9999970: "next_prime dr 9999970 = Some (Inr 9999971)"
  by (simp add:
      next_prime_def next_prime_loop_step next_prime_loop_stop is_prime_9999971)

lemma prev_prime_9999971: "prev_prime dr 9999971 = Some (Inr 9999943)"
  by (simp add:
      prev_prime_def prev_prime_loop_step prev_prime_loop_stop is_prime_9999943
      not_is_prime_dvd [of 3 9999969] not_is_prime_dvd [of 677 9999967]
      not_is_prime_dvd [of 5 9999965] not_is_prime_dvd [of 3 9999963]
      not_is_prime_dvd [of 17 9999961] not_is_prime_dvd [of 797 9999959]
      not_is_prime_dvd [of 3 9999957] not_is_prime_dvd [of 5 9999955]
      not_is_prime_dvd [of 37 9999953] not_is_prime_dvd [of 3 9999951]
      not_is_prime_dvd [of 31 9999949] not_is_prime_dvd [of 19 9999947]
      not_is_prime_dvd [of 3 9999945])

lemma next_prime_10000000: "next_prime dr 10000000 = Some (Inr 10000019)"
  by (simp add:
      next_prime_def next_prime_loop_step next_prime_loop_stop is_prime_10000019
      not_is_prime_dvd [of 11 10000001] not_is_prime_dvd [of 13 10000003]
      not_is_prime_dvd [of 3 10000005] not_is_prime_dvd [of 941 10000007]
      not_is_prime_dvd [of 23 10000009] not_is_prime_dvd [of 3 10000011]
      not_is_prime_dvd [of 421 10000013] not_is_prime_dvd [of 5 10000015]
      not_is_prime_dvd [of 3 10000017])

lemma next_prime_9999981: "next_prime dr 9999981 = Some (Inr 9999991)"
  by (simp add:
      next_prime_def next_prime_loop_step next_prime_loop_stop is_prime_9999991
      not_is_prime_dvd [of 7 9999983] not_is_prime_dvd [of 5 9999985]
      not_is_prime_dvd [of 3 9999987] not_is_prime_dvd [of 223 9999989])

lemma prev_prime_9999991: "prev_prime dr 9999991 = Some (Inr 9999973)"
  by (simp add:
      prev_prime_def prev_prime_loop_step prev_prime_loop_stop is_prime_9999973
      not_is_prime_dvd [of 223 9999989] not_is_prime_dvd [of 3 9999987]
      not_is_prime_dvd [of 5 9999985] not_is_prime_dvd [of 7 9999983]
      not_is_prime_dvd [of 3 9999981] not_is_prime_dvd [of 11 9999979]
      not_is_prime_dvd [of 13 9999977] not_is_prime_dvd [of 3 9999975])

lemma next_prime_99999810: "next_prime dr 99999810 = Some (Inr 99999821)"
  by (simp add:
      next_prime_def next_prime_loop_step next_prime_loop_stop is_prime_99999821
      not_is_prime_dvd [of 43 99999811] not_is_prime_dvd [of 3 99999813]
      not_is_prime_dvd [of 5 99999815] not_is_prime_dvd [of 53 99999817]
      not_is_prime_dvd [of 3 99999819])

lemma prev_prime_99999821: "prev_prime dr 99999821 = Some (Inr 99999787)"
  by (simp add:
      prev_prime_def prev_prime_loop_step prev_prime_loop_stop is_prime_99999787
      not_is_prime_dvd [of 3 99999819] not_is_prime_dvd [of 53 99999817]
      not_is_prime_dvd [of 5 99999815] not_is_prime_dvd [of 3 99999813]
      not_is_prime_dvd [of 43 99999811] not_is_prime_dvd [of 7 99999809]
      not_is_prime_dvd [of 3 99999807] not_is_prime_dvd [of 5 99999805]
      not_is_prime_dvd [of 1021 99999803] not_is_prime_dvd [of 3 99999801]
      not_is_prime_dvd [of 2063 99999799] not_is_prime_dvd [of 17 99999797]
      not_is_prime_dvd [of 3 99999795] not_is_prime_dvd [of 19 99999793]
      not_is_prime_dvd [of 23 99999791] not_is_prime_dvd [of 3 99999789])

lemma digits_121: "length (str_int 121) = 3"
  by code_simp

lemma digits_77: "length (str_int 77) = 2"
  by code_simp

lemma generate_semiprime_run_2: "generate_semiprime dr 2 = Some (Inr (11, 7, 77))"
  by (simp add: generate_semiprime_def shrink_loop.simps grow_loop.simps
      next_prime_10 next_prime_9 prev_prime_11 digits_121 digits_77)

lemma digits_1067: "length (str_int 1067) = 4"
  by code_simp

lemma digits_979: "length (str_int 979) = 3"
  by code_simp

lemma generate_semiprime_run_3: "generate_semiprime dr 3 = Some (Inr (11, 89, 979))"
  by (simp add: generate_semiprime_def shrink_loop.simps grow_loop.simps
      next_prime_10 next_prime_90 prev_prime_97 digits_1067 digits_979)

lemma digits_10201: "length (str_int 10201) = 5"
  by code_simp

lemma digits_9797: "length (str_int 9797) = 4"
  by code_simp

lemma generate_semiprime_run_4: "generate_semiprime dr 4 = Some (Inr (101, 97, 9797))"
  by (simp add: generate_semiprime_def shrink_loop.simps grow_loop.simps
      next_prime_100 next_prime_99 prev_prime_101 digits_10201 digits_9797)

lemma digits_100091: "length (str_int 100091) = 6"
  by code_simp

lemma digits_99283: "length (str_int 99283) = 5"
  by code_simp

lemma generate_semiprime_run_5: "generate_semiprime dr 5 = Some (Inr (101, 983, 99283))"
  by (simp add: generate_semiprime_def shrink_loop.simps grow_loop.simps
      next_prime_100 next_prime_990 prev_prime_991 digits_100091 digits_99283)

lemma digits_1005973: "length (str_int 1005973) = 7"
  by code_simp

lemma digits_999919: "length (str_int 999919) = 6"
  by code_simp

lemma generate_semiprime_run_6: "generate_semiprime dr 6 = Some (Inr (1009, 991, 999919))"
  by (simp add: generate_semiprime_def shrink_loop.simps grow_loop.simps
      next_prime_1000 next_prime_991 prev_prime_997 digits_1005973 digits_999919)

lemma digits_10012307: "length (str_int 10012307) = 8"
  by code_simp

lemma digits_9996163: "length (str_int 9996163) = 7"
  by code_simp

lemma generate_semiprime_run_7: "generate_semiprime dr 7 = Some (Inr (1009, 9907, 9996163))"
  by (simp add: generate_semiprime_def shrink_loop.simps grow_loop.simps
      next_prime_1000 next_prime_9910 prev_prime_9923 digits_10012307 digits_9996163)

lemma digits_100140049: "length (str_int 100140049) = 9"
  by code_simp

lemma digits_99799811: "length (str_int 99799811) = 8"
  by code_simp

lemma generate_semiprime_run_8: "generate_semiprime dr 8 = Some (Inr (10007, 9973, 99799811))"
  by (simp add: generate_semiprime_def shrink_loop.simps grow_loop.simps
      next_prime_10000 next_prime_9993 prev_prime_10007 digits_100140049 digits_99799811)

lemma digits_1000309727: "length (str_int 1000309727) = 10"
  by code_simp

lemma digits_999989503: "length (str_int 999989503) = 9"
  by code_simp

lemma generate_semiprime_run_9: "generate_semiprime dr 9 = Some (Inr (10007, 99929, 999989503))"
  by (simp add: generate_semiprime_def shrink_loop.simps grow_loop.simps
      next_prime_10000 next_prime_99930 prev_prime_99961 digits_1000309727 digits_999989503)

lemma digits_10000600009: "length (str_int 10000600009) = 11"
  by code_simp

lemma digits_9999399973: "length (str_int 9999399973) = 10"
  by code_simp

lemma generate_semiprime_run_10: "generate_semiprime dr 10 = Some (Inr (100003, 99991, 9999399973))"
  by (simp add: generate_semiprime_def shrink_loop.simps grow_loop.simps
      next_prime_100000 next_prime_99997 prev_prime_100003 digits_10000600009 digits_9999399973)

lemma digits_100000899937: "length (str_int 100000899937) = 12"
  by code_simp

lemma digits_99999099883: "length (str_int 99999099883) = 11"
  by code_simp

lemma generate_semiprime_run_11: "generate_semiprime dr 11 = Some (Inr (100003, 999961, 99999099883))"
  by (simp add: generate_semiprime_def shrink_loop.simps grow_loop.simps
      next_prime_100000 next_prime_999970 prev_prime_999979 digits_100000899937
      digits_99999099883)

lemma digits_1000006000009: "length (str_int 1000006000009) = 13"
  by code_simp

lemma digits_999985999949: "length (str_int 999985999949) = 12"
  by code_simp

lemma generate_semiprime_run_12: "generate_semiprime dr 12 = Some (Inr (1000003, 999983, 999985999949))"
  by (simp add: generate_semiprime_def shrink_loop.simps grow_loop.simps
      next_prime_1000000 next_prime_999997 prev_prime_1000003 digits_1000006000009
      digits_999985999949)

lemma digits_10000000999913: "length (str_int 10000000999913) = 14"
  by code_simp

lemma digits_9999972999829: "length (str_int 9999972999829) = 13"
  by code_simp

lemma generate_semiprime_run_13: "generate_semiprime dr 13 = Some (Inr (1000003, 9999943, 9999972999829))"
  by (simp add: generate_semiprime_def shrink_loop.simps grow_loop.simps
      next_prime_1000000 next_prime_9999970 prev_prime_9999971 digits_10000000999913
      digits_9999972999829)

lemma digits_100000099999829: "length (str_int 100000099999829) = 15"
  by code_simp

lemma digits_99999919999487: "length (str_int 99999919999487) = 14"
  by code_simp

lemma generate_semiprime_run_14: "generate_semiprime dr 14 = Some (Inr (10000019, 9999973, 99999919999487))"
  by (simp add: generate_semiprime_def shrink_loop.simps grow_loop.simps
      next_prime_10000000 next_prime_9999981 prev_prime_9999991 digits_100000099999829
      digits_99999919999487)

lemma digits_1000000109996599: "length (str_int 1000000109996599) = 16"
  by code_simp

lemma digits_999999769995953: "length (str_int 999999769995953) = 15"
  by code_simp

lemma generate_semiprime_run_15: "generate_semiprime dr 15 = Some (Inr (10000019, 99999787, 999999769995953))"
  by (simp add: generate_semiprime_def shrink_loop.simps grow_loop.simps
      next_prime_10000000 next_prime_99999810 prev_prime_99999821 digits_1000000109996599
      digits_999999769995953)

text \<open>
  Claim C1. For every digit count \<open>d\<close> from 2 to 15, \<open>generate_semiprime d\<close> returns a
  triple \<open>(p, q, product)\<close> in which \<open>p\<close> and \<open>q\<close> are prime, \<open>p * q = product\<close>, and
  \<open>product\<close> has exactly \<open>d\<close> decimal digits: \<^verbatim>\<open>len(str(product))\<close> is \<open>d\<close>, and
  the product lies from \<open>10 ^ (d - 1)\<close> up to, but not at, \<open>10 ^ d\<close>. Every number the
  oracle is asked about in these runs is below \<open>2^52\<close>, so the result is the same for every
  \<open>double_root\<close>.
\<close>

theorem generate_semiprime_digits:
  "\<forall>d \<in> {2..15}. \<exists>p q product. generate_semiprime dr d = Some (Inr (p, q, product))
     \<and> prime_int p \<and> prime_int q \<and> p * q = product \<and> length (str_int product) = d
     \<and> 10 ^ (d - 1) \<le> product \<and> product < 10 ^ d"
proof
  fix d :: nat
  assume "d \<in> {2..15}"
  then consider "d = 2" | "d = 3" | "d = 4" | "d = 5" | "d = 6" | "d = 7" | "d = 8" | "d = 9"
    | "d = 10" | "d = 11" | "d = 12" | "d = 13" | "d = 14" | "d = 15"
    by (auto simp: numeral_eq_Suc le_Suc_eq)
  then show "\<exists>p q product. generate_semiprime dr d = Some (Inr (p, q, product))
     \<and> prime_int p \<and> prime_int q \<and> p * q = product \<and> length (str_int product) = d
     \<and> 10 ^ (d - 1) \<le> product \<and> product < 10 ^ d"
  proof cases
    case 1
    have "prime_int 11" and "prime_int 7"
      using is_prime_prime_int [OF is_prime_11] is_prime_prime_int [OF is_prime_7] by simp_all
    then show ?thesis using generate_semiprime_run_2 digits_77 1 by simp
  next
    case 2
    have "prime_int 11" and "prime_int 89"
      using is_prime_prime_int [OF is_prime_11] is_prime_prime_int [OF is_prime_89] by simp_all
    then show ?thesis using generate_semiprime_run_3 digits_979 2 by simp
  next
    case 3
    have "prime_int 101" and "prime_int 97"
      using is_prime_prime_int [OF is_prime_101] is_prime_prime_int [OF is_prime_97] by simp_all
    then show ?thesis using generate_semiprime_run_4 digits_9797 3 by simp
  next
    case 4
    have "prime_int 101" and "prime_int 983"
      using is_prime_prime_int [OF is_prime_101] is_prime_prime_int [OF is_prime_983] by simp_all
    then show ?thesis using generate_semiprime_run_5 digits_99283 4 by simp
  next
    case 5
    have "prime_int 1009" and "prime_int 991"
      using is_prime_prime_int [OF is_prime_1009] is_prime_prime_int [OF is_prime_991] by simp_all
    then show ?thesis using generate_semiprime_run_6 digits_999919 5 by simp
  next
    case 6
    have "prime_int 1009" and "prime_int 9907"
      using is_prime_prime_int [OF is_prime_1009] is_prime_prime_int [OF is_prime_9907] by simp_all
    then show ?thesis using generate_semiprime_run_7 digits_9996163 6 by simp
  next
    case 7
    have "prime_int 10007" and "prime_int 9973"
      using is_prime_prime_int [OF is_prime_10007] is_prime_prime_int [OF is_prime_9973] by simp_all
    then show ?thesis using generate_semiprime_run_8 digits_99799811 7 by simp
  next
    case 8
    have "prime_int 10007" and "prime_int 99929"
      using is_prime_prime_int [OF is_prime_10007] is_prime_prime_int [OF is_prime_99929] by simp_all
    then show ?thesis using generate_semiprime_run_9 digits_999989503 8 by simp
  next
    case 9
    have "prime_int 100003" and "prime_int 99991"
      using is_prime_prime_int [OF is_prime_100003] is_prime_prime_int [OF is_prime_99991] by simp_all
    then show ?thesis using generate_semiprime_run_10 digits_9999399973 9 by simp
  next
    case 10
    have "prime_int 100003" and "prime_int 999961"
      using is_prime_prime_int [OF is_prime_100003] is_prime_prime_int [OF is_prime_999961] by simp_all
    then show ?thesis using generate_semiprime_run_11 digits_99999099883 10 by simp
  next
    case 11
    have "prime_int 1000003" and "prime_int 999983"
      using is_prime_prime_int [OF is_prime_1000003] is_prime_prime_int [OF is_prime_999983] by simp_all
    then show ?thesis using generate_semiprime_run_12 digits_999985999949 11 by simp
  next
    case 12
    have "prime_int 1000003" and "prime_int 9999943"
      using is_prime_prime_int [OF is_prime_1000003] is_prime_prime_int [OF is_prime_9999943] by simp_all
    then show ?thesis using generate_semiprime_run_13 digits_9999972999829 12 by simp
  next
    case 13
    have "prime_int 10000019" and "prime_int 9999973"
      using is_prime_prime_int [OF is_prime_10000019] is_prime_prime_int [OF is_prime_9999973] by simp_all
    then show ?thesis using generate_semiprime_run_14 digits_99999919999487 13 by simp
  next
    case 14
    have "prime_int 10000019" and "prime_int 99999787"
      using is_prime_prime_int [OF is_prime_10000019] is_prime_prime_int [OF is_prime_99999787] by simp_all
    then show ?thesis using generate_semiprime_run_15 digits_999999769995953 14 by simp
  qed
qed

theorem generate_semiprime_digits_witness:
  "(8 :: nat) \<in> {2..15}
   \<and> generate_semiprime floor_sqrt 8 = Some (Inr (10007, 9973, 99799811))
   \<and> (\<exists>p q product. generate_semiprime floor_sqrt 8 = Some (Inr (p, q, product))
        \<and> prime_int p \<and> prime_int q \<and> p * q = product \<and> length (str_int product) = 8
        \<and> 10 ^ (8 - 1) \<le> product \<and> product < 10 ^ 8)"
proof -
  have h: "(8 :: nat) \<in> {2..15}" by simp
  from bspec [OF generate_semiprime_digits h, of floor_sqrt] h generate_semiprime_run_8 [of floor_sqrt]
  show ?thesis by blast
qed

end
